theory Spec2Isabelle
  imports Main "HOL-Library.Word"
begin

unbundle bit_operations_syntax

section \<open>The reactive effect engine of packages/reactivity/src/effect.ts\<close>

text \<open>
  The module keeps its state in module-level variables and in objects that are shared by
  reference: a \<open>ReactiveEffect\<close> holds references to the \<open>Dep\<close> sets it is a member of,
  and every \<open>Dep\<close> holds references to its effects. The model keeps both kinds of object in
  a heap (a function from an address to the object) and threads one record of the whole
  module state through every operation. The production build is modelled: the branches
  under \<open>__DEV__\<close> (\<open>onTrack\<close>, \<open>onTrigger\<close>, the debugger event) and the
  \<open>console.log\<close> calls are left out, as is \<open>recordEffectScope\<close>, which touches no
  tracking state.
\<close>

subsection \<open>Values, keys, targets\<close>

type_synonym eid = nat
type_synonym did = nat

text \<open>What a wrapped function returns, and what it may throw.\<close>

datatype jsval = Undefined | Val nat

datatype exn = TypeError | Thrown nat

datatype completion = Normal jsval | Abrupt exn

text \<open>
  A key is any JavaScript value that the interception layer passes: \<open>undefined\<close>, a string,
  a symbol (by identity) or a number (integers only; fractions are not modelled).
\<close>

datatype key = KUndefined | KString string | KSymbol nat | KNumber int

definition ITERATE_KEY :: key where
  "ITERATE_KEY = KSymbol 0"

definition MAP_KEY_ITERATE_KEY :: key where
  "MAP_KEY_ITERATE_KEY = KSymbol 1"

text \<open>
  A target is referenced by identity only. What the engine asks of it is \<open>isArray\<close> and
  \<open>isMap\<close>, so the model keeps its kind beside its address.
\<close>

datatype target = ArrayT nat | MapT nat | OtherT nat

text \<open>Modelled from the spec: \<open>isArray\<close> of @vue/shared, "ordered-sequence container".\<close>

fun isArray :: "target \<Rightarrow> bool" where
  "isArray (ArrayT a) = True"
| "isArray (MapT a) = False"
| "isArray (OtherT a) = False"

text \<open>Modelled from the spec: \<open>isMap\<close> of @vue/shared, "keyed-map container".\<close>

fun isMap :: "target \<Rightarrow> bool" where
  "isMap (ArrayT a) = False"
| "isMap (MapT a) = True"
| "isMap (OtherT a) = False"

text \<open>
  Modelled from the spec: \<open>isIntegerKey\<close> of @vue/shared, "an integer index": a string
  that is the decimal numeral of a natural number, without sign and without leading zero.
\<close>

definition isDigit :: "char \<Rightarrow> bool" where
  "isDigit c = (c \<in> set ''0123456789'')"

definition isIntegerKey :: "key \<Rightarrow> bool" where
  "isIntegerKey k =
     (case k of
        KString s \<Rightarrow> s \<noteq> [] \<and> list_all isDigit s \<and> (s = ''0'' \<or> hd s \<noteq> CHR ''0'')
      | _ \<Rightarrow> False)"

text \<open>Modelled from the spec: \<open>TriggerOpTypes\<close> of ./operations, "changeKind".\<close>

datatype TriggerOpTypes = SET | ADD | DELETE | CLEAR

subsection \<open>Dependency sets, effects, user code\<close>

text \<open>
  A \<open>Dep\<close> is a JavaScript \<open>Set\<close> of effects with the two marker fields \<open>w\<close> and
  \<open>n\<close>. A \<open>Set\<close> iterates in insertion order and holds no element twice: it is a list
  here, \<open>add\<close> appends an element that is not yet a member and \<open>delete\<close> removes it. The
  markers are 32-bit integers, as the bitwise operators of JavaScript make them.
\<close>

record Dep =
  members :: "eid list"
  w_marks :: "32 word"
  n_marks :: "32 word"

text \<open>
  User code (the wrapped function of an effect, a scheduler, an \<open>onStop\<close> callback) is a
  closure the engine cannot look into. What matters of it is the sequence of calls it
  makes into the engine, its result, and whether it throws: a function is a list of such
  calls and the value it returns. A function may also be the runner that \<open>effect\<close>
  returned (\<open>_effect.run.bind(_effect)\<close>, with its \<open>effect\<close> property).
\<close>

datatype cmd =
    Track target key
  | Trigger target TriggerOpTypes key "int option"
  | CallRunner eid
  | CallStop eid
  | PauseTracking
  | EnableTracking
  | ResetTracking
  | Throw nat

datatype func = Fn "cmd list" jsval | RunnerOf eid

record ReactiveEffect =
  active :: bool
  deps :: "did list"
  allowRecurse :: bool
  onStop :: "func option"
  fn :: func
  scheduler :: "func option"

text \<open>
  The calls the engine makes to user code and to \<open>run\<close>, in order. No operation reads the
  trace; it is kept so that "is invoked exactly once" can be stated.
\<close>

datatype event =
    RunCalled eid
  | SchedulerCalled eid
  | FnCalled eid
  | OnStopCalled eid

text \<open>
  The module state. \<open>targetMap\<close> maps a target to its \<open>Map\<close> from keys to \<open>Dep\<close>s, in
  insertion order; an entry is never removed. \<open>effectStack\<close> and \<open>trackStack\<close> have their
  top at the head of the list.
\<close>

record state =
  targetMap :: "target \<Rightarrow> (key \<times> did) list option"
  depHeap :: "did \<Rightarrow> Dep"
  nextDep :: did
  effectHeap :: "eid \<Rightarrow> ReactiveEffect"
  nextEffect :: eid
  effectTrackDepth :: int
  trackOpBit :: "32 word"
  effectStack :: "eid list"
  activeEffect :: "eid option"
  shouldTrack :: bool
  trackStack :: "bool list"
  trace :: "event list"

definition maxMarkerBits :: int where
  "maxMarkerBits = 30"

text \<open>\<open>1 << d\<close>: JavaScript takes the shift count modulo 32 and the result as 32 bits.\<close>

definition shl1 :: "int \<Rightarrow> 32 word" where
  "shl1 d = push_bit (nat (d mod 32)) 1"

subsection \<open>The markers of dep.ts\<close>

text \<open>Modelled from the spec: \<open>createDep\<close> of ./dep, a set of the given effects with both
  bit-masks empty.\<close>

definition dep_add :: "eid \<Rightarrow> eid list \<Rightarrow> eid list" where
  "dep_add e es = (if e \<in> set es then es else es @ [e])"

definition dep_delete :: "eid \<Rightarrow> eid list \<Rightarrow> eid list" where
  "dep_delete e es = removeAll e es"

definition createDep :: "eid list \<Rightarrow> Dep" where
  "createDep es = \<lparr>members = foldl (\<lambda>acc e. dep_add e acc) [] es, w_marks = 0, n_marks = 0\<rparr>"

text \<open>Modelled from the spec: \<open>wasTracked\<close> of ./dep, the "was tracked" bits include the
  current marker.\<close>

definition wasTracked :: "state \<Rightarrow> Dep \<Rightarrow> bool" where
  "wasTracked s d = (w_marks d AND trackOpBit s \<noteq> 0)"

text \<open>Modelled from the spec: \<open>newTracked\<close> of ./dep, the "newly tracked" bits include the
  current marker.\<close>

definition newTracked :: "state \<Rightarrow> Dep \<Rightarrow> bool" where
  "newTracked s d = (n_marks d AND trackOpBit s \<noteq> 0)"

text \<open>An update of one object of a heap, in place.\<close>

definition map_dep :: "did \<Rightarrow> (Dep \<Rightarrow> Dep) \<Rightarrow> state \<Rightarrow> state" where
  "map_dep d g s = s\<lparr>depHeap := (depHeap s)(d := g (depHeap s d))\<rparr>"

definition map_deps :: "did list \<Rightarrow> (Dep \<Rightarrow> Dep) \<Rightarrow> state \<Rightarrow> state" where
  "map_deps ds g s = fold (\<lambda>d. map_dep d g) ds s"

definition map_effect :: "eid \<Rightarrow> (ReactiveEffect \<Rightarrow> ReactiveEffect) \<Rightarrow> state \<Rightarrow> state" where
  "map_effect e g s = s\<lparr>effectHeap := (effectHeap s)(e := g (effectHeap s e))\<rparr>"

text \<open>Modelled from the spec: \<open>initDepMarkers\<close> of ./dep, "mark every Dependency Set
  currently referencing this effect as previously tracked at this depth".\<close>

definition initDepMarkers :: "eid \<Rightarrow> state \<Rightarrow> state" where
  "initDepMarkers e s =
     map_deps (deps (effectHeap s e)) (\<lambda>x. x\<lparr>w_marks := w_marks x OR trackOpBit s\<rparr>) s"

text \<open>Modelled from the spec: \<open>finalizeDepMarkers\<close> of ./dep, "any Dependency Set that was
  marked previously tracked but not newly tracked this run is stale and must have this
  effect removed from it, and the effect's own dependency list rebuilt": a stale set loses
  the effect and leaves the list, every other set of the list stays, and the markers of
  this depth are taken off every set of the list, so that they describe one run only.\<close>

definition stale :: "state \<Rightarrow> Dep \<Rightarrow> bool" where
  "stale s x = (wasTracked s x \<and> \<not> newTracked s x)"

definition finalize_dep :: "eid \<Rightarrow> state \<Rightarrow> Dep \<Rightarrow> Dep" where
  "finalize_dep e s x =
     x\<lparr>members := (if stale s x then dep_delete e (members x) else members x),
       w_marks := w_marks x AND NOT (trackOpBit s),
       n_marks := n_marks x AND NOT (trackOpBit s)\<rparr>"

definition finalizeDepMarkers :: "eid \<Rightarrow> state \<Rightarrow> state" where
  "finalizeDepMarkers e s =
     (let ds = deps (effectHeap s e);
          s1 = map_deps ds (finalize_dep e s) s
      in map_effect e (\<lambda>x. x\<lparr>deps := filter (\<lambda>d. \<not> stale s (depHeap s d)) ds\<rparr>) s1)"

subsection \<open>cleanupEffect and the tracking switches\<close>

definition cleanupEffect :: "eid \<Rightarrow> state \<Rightarrow> state" where
  "cleanupEffect e s =
     (let s1 = map_deps (deps (effectHeap s e))
                 (\<lambda>x. x\<lparr>members := dep_delete e (members x)\<rparr>) s
      in map_effect e (\<lambda>x. x\<lparr>deps := []\<rparr>) s1)"

definition pauseTracking :: "state \<Rightarrow> state" where
  "pauseTracking s = s\<lparr>trackStack := shouldTrack s # trackStack s, shouldTrack := False\<rparr>"

definition enableTracking :: "state \<Rightarrow> state" where
  "enableTracking s = s\<lparr>trackStack := shouldTrack s # trackStack s, shouldTrack := True\<rparr>"

definition resetTracking :: "state \<Rightarrow> state" where
  "resetTracking s =
     (case trackStack s of
        [] \<Rightarrow> s\<lparr>shouldTrack := True\<rparr>
      | saved # rest \<Rightarrow> s\<lparr>trackStack := rest, shouldTrack := saved\<rparr>)"

definition isTracking :: "state \<Rightarrow> bool" where
  "isTracking s = (shouldTrack s \<and> activeEffect s \<noteq> None)"

subsection \<open>track and trackEffects\<close>

text \<open>
  \<open>trackEffects\<close> reads \<open>activeEffect!\<close>; \<open>track\<close> calls it only when \<open>isTracking()\<close>
  holds, and passes the active effect here as the argument \<open>e\<close>.
\<close>

definition trackEffects :: "did \<Rightarrow> eid \<Rightarrow> state \<Rightarrow> state" where
  "trackEffects d e s =
     (let (track_it, s1) =
            (if effectTrackDepth s \<le> maxMarkerBits then
               (if \<not> newTracked s (depHeap s d) then
                  (\<not> wasTracked s (depHeap s d),
                   map_dep d (\<lambda>x. x\<lparr>n_marks := n_marks x OR trackOpBit s\<rparr>) s)
                else (False, s))
             else (e \<notin> set (members (depHeap s d)), s))
      in if track_it then
           map_effect e (\<lambda>x. x\<lparr>deps := deps x @ [d]\<rparr>)
             (map_dep d (\<lambda>x. x\<lparr>members := dep_add e (members x)\<rparr>) s1)
         else s1)"

definition track :: "target \<Rightarrow> key \<Rightarrow> state \<Rightarrow> state" where
  "track tg k s =
     (case activeEffect s of
        None \<Rightarrow> s
      | Some e \<Rightarrow>
          if \<not> shouldTrack s then s
          else
            (let (depsMap, s1) =
                   (case targetMap s tg of
                      None \<Rightarrow> ([], s\<lparr>targetMap := (targetMap s)(tg \<mapsto> [])\<rparr>)
                    | Some m \<Rightarrow> (m, s));
                 (d, s2) =
                   (case map_of depsMap k of
                      None \<Rightarrow>
                        (nextDep s1,
                         s1\<lparr>targetMap := (targetMap s1)(tg \<mapsto> depsMap @ [(k, nextDep s1)]),
                            depHeap := (depHeap s1)(nextDep s1 := createDep []),
                            nextDep := Suc (nextDep s1)\<rparr>)
                    | Some d \<Rightarrow> (d, s1))
             in trackEffects d e s2))"

subsection \<open>trigger: which dependency sets, which effects\<close>

text \<open>
  \<open>key >= newValue\<close> in the callback of \<open>depsMap.forEach\<close>. The new value is a number
  (\<open>newValue as number\<close>), \<open>None\<close> standing for \<open>undefined\<close>, which compares as
  \<open>NaN\<close>. The comparison converts the key to a number: a symbol cannot be converted and
  raises a \<open>TypeError\<close>, \<open>undefined\<close> is \<open>NaN\<close>, and a string is converted by the
  language's \<open>StringToNumber\<close>, which is taken as the parameter \<open>toNumber\<close> (\<open>None\<close> for
  \<open>NaN\<close>, otherwise the number rounded down, which decides \<open>>=\<close> against an integer).
\<close>

definition js_ge :: "(string \<Rightarrow> int option) \<Rightarrow> key \<Rightarrow> int option \<Rightarrow> exn + bool" where
  "js_ge toNumber k nv =
     (case k of
        KSymbol y \<Rightarrow> Inl TypeError
      | KUndefined \<Rightarrow> Inr False
      | KNumber m \<Rightarrow> Inr (case nv of None \<Rightarrow> False | Some v \<Rightarrow> v \<le> m)
      | KString str \<Rightarrow>
          Inr (case toNumber str of
                 None \<Rightarrow> False
               | Some m \<Rightarrow> (case nv of None \<Rightarrow> False | Some v \<Rightarrow> v \<le> m)))"

fun length_deps ::
  "(string \<Rightarrow> int option) \<Rightarrow> (key \<times> did) list \<Rightarrow> int option \<Rightarrow> exn + did option list" where
  "length_deps toNumber [] nv = Inr []"
| "length_deps toNumber ((k, d) # rest) nv =
     (if k = KString ''length'' then
        (case length_deps toNumber rest nv of Inl x \<Rightarrow> Inl x | Inr ds \<Rightarrow> Inr (Some d # ds))
      else
        (case js_ge toNumber k nv of
           Inl x \<Rightarrow> Inl x
         | Inr b \<Rightarrow>
             (case length_deps toNumber rest nv of
                Inl x \<Rightarrow> Inl x
              | Inr ds \<Rightarrow> Inr (if b then Some d # ds else ds))))"

text \<open>
  The array \<open>deps\<close> that \<open>trigger\<close> builds: its entries are \<open>Dep\<close>s or \<open>undefined\<close>
  (what \<open>depsMap.get\<close> returns for a key never tracked).
\<close>

definition trigger_deps ::
  "(string \<Rightarrow> int option) \<Rightarrow> (key \<times> did) list \<Rightarrow> target \<Rightarrow> TriggerOpTypes \<Rightarrow> key \<Rightarrow> int option
     \<Rightarrow> exn + did option list" where
  "trigger_deps toNumber depsMap tg ty k nv =
     (if ty = CLEAR then Inr (map (\<lambda>(k', d). Some d) depsMap)
      else if k = KString ''length'' \<and> isArray tg then length_deps toNumber depsMap nv
      else
        Inr ((if k \<noteq> KUndefined then [map_of depsMap k] else []) @
             (case ty of
                ADD \<Rightarrow>
                  (if \<not> isArray tg then
                     [map_of depsMap ITERATE_KEY] @
                     (if isMap tg then [map_of depsMap MAP_KEY_ITERATE_KEY] else [])
                   else if isIntegerKey k then [map_of depsMap (KString ''length'')]
                   else [])
              | DELETE \<Rightarrow>
                  (if \<not> isArray tg then
                     [map_of depsMap ITERATE_KEY] @
                     (if isMap tg then [map_of depsMap MAP_KEY_ITERATE_KEY] else [])
                   else [])
              | SET \<Rightarrow> (if isMap tg then [map_of depsMap ITERATE_KEY] else [])
              | CLEAR \<Rightarrow> [])))"

text \<open>
  The effects that \<open>trigger\<close> hands to \<open>triggerEffects\<close>, as the array the loop there
  iterates (\<open>[...dep]\<close>): the one set when \<open>deps\<close> has one entry, otherwise the set built
  from the members of all of them.
\<close>

definition dep_members :: "state \<Rightarrow> did option \<Rightarrow> eid list" where
  "dep_members s od = (case od of None \<Rightarrow> [] | Some d \<Rightarrow> members (depHeap s d))"

definition trigger_effects :: "state \<Rightarrow> did option list \<Rightarrow> eid list" where
  "trigger_effects s ds =
     (if length ds = 1 then dep_members s (hd ds)
      else members (createDep (concat (map (dep_members s) ds))))"

definition trigger_snapshot ::
  "(string \<Rightarrow> int option) \<Rightarrow> target \<Rightarrow> TriggerOpTypes \<Rightarrow> key \<Rightarrow> int option \<Rightarrow> state
     \<Rightarrow> exn + eid list" where
  "trigger_snapshot toNumber tg ty k nv s =
     (case targetMap s tg of
        None \<Rightarrow> Inr []
      | Some depsMap \<Rightarrow>
          (case trigger_deps toNumber depsMap tg ty k nv of
             Inl x \<Rightarrow> Inl x
           | Inr ds \<Rightarrow> Inr (trigger_effects s ds)))"

subsection \<open>run, stop, triggerEffects and the user code they call\<close>

text \<open>
  The part of \<open>run\<close> before \<open>this.fn()\<close> and its \<open>finally\<close> block.
\<close>

definition run_enter :: "eid \<Rightarrow> state \<Rightarrow> state" where
  "run_enter e s =
     (let s1 = enableTracking (s\<lparr>activeEffect := Some e, effectStack := e # effectStack s\<rparr>);
          s2 = s1\<lparr>effectTrackDepth := effectTrackDepth s1 + 1,
                  trackOpBit := shl1 (effectTrackDepth s1 + 1)\<rparr>
      in if effectTrackDepth s2 \<le> maxMarkerBits then initDepMarkers e s2
         else cleanupEffect e s2)"

definition run_exit :: "eid \<Rightarrow> state \<Rightarrow> state" where
  "run_exit e s =
     (let s1 = (if effectTrackDepth s \<le> maxMarkerBits then finalizeDepMarkers e s else s);
          s2 = resetTracking (s1\<lparr>effectTrackDepth := effectTrackDepth s1 - 1,
                                 trackOpBit := shl1 (effectTrackDepth s1 - 1)\<rparr>);
          st = tl (effectStack s2)
      in s2\<lparr>effectStack := st,
             activeEffect := (case st of [] \<Rightarrow> None | e1 # below \<Rightarrow> Some e1)\<rparr>)"

definition log_event :: "event \<Rightarrow> state \<Rightarrow> state" where
  "log_event ev s = s\<lparr>trace := trace s @ [ev]\<rparr>"

definition set_inactive :: "eid \<Rightarrow> state \<Rightarrow> state" where
  "set_inactive e s = map_effect e (\<lambda>x. x\<lparr>active := False\<rparr>) s"

text \<open>
  User code calls back into the engine, and the engine calls user code. The engine's
  functions take the way a user function is called as their first argument \<open>c\<close>: where
  the source writes \<open>this.fn()\<close>, \<open>effect.scheduler()\<close> or \<open>this.onStop()\<close>, the model
  writes \<open>c\<close> applied to that function. \<open>None\<close> is a call that does not return.
\<close>

type_synonym result = "(completion \<times> state) option"
type_synonym caller = "func \<Rightarrow> state \<Rightarrow> result"

definition run :: "caller \<Rightarrow> eid \<Rightarrow> state \<Rightarrow> result" where
  "run c e s =
     (if \<not> active (effectHeap s e) then c (fn (effectHeap s e)) (log_event (FnCalled e) s)
      else if e \<in> set (effectStack s) then Some (Normal Undefined, s)
      else
        (case c (fn (effectHeap s e)) (log_event (FnCalled e) (run_enter e s)) of
           None \<Rightarrow> None
         | Some (r, s') \<Rightarrow> Some (r, run_exit e s')))"

definition stop :: "caller \<Rightarrow> eid \<Rightarrow> state \<Rightarrow> result" where
  "stop c e s =
     (if active (effectHeap s e) then
        (case onStop (effectHeap s e) of
           None \<Rightarrow> Some (Normal Undefined, set_inactive e (cleanupEffect e s))
         | Some g \<Rightarrow>
             (case c g (log_event (OnStopCalled e) (cleanupEffect e s)) of
                None \<Rightarrow> None
              | Some (Normal r, s') \<Rightarrow> Some (Normal Undefined, set_inactive e s')
              | Some (Abrupt x, s') \<Rightarrow> Some (Abrupt x, s')))
      else Some (Normal Undefined, s))"

text \<open>
  \<open>triggerEffects\<close> iterates an array: the argument itself, or \<open>[...dep]\<close>, the members
  of the set at the time of the call.
\<close>

fun triggerEffects :: "caller \<Rightarrow> eid list \<Rightarrow> state \<Rightarrow> result" where
  "triggerEffects c [] s = Some (Normal Undefined, s)"
| "triggerEffects c (e # es) s =
     (if activeEffect s \<noteq> Some e \<or> allowRecurse (effectHeap s e) then
        (case scheduler (effectHeap s e) of
           Some g \<Rightarrow>
             (case c g (log_event (SchedulerCalled e) s) of
                None \<Rightarrow> None
              | Some (Normal r, s') \<Rightarrow> triggerEffects c es s'
              | Some (Abrupt x, s') \<Rightarrow> Some (Abrupt x, s'))
         | None \<Rightarrow>
             (case run c e (log_event (RunCalled e) s) of
                None \<Rightarrow> None
              | Some (Normal r, s') \<Rightarrow> triggerEffects c es s'
              | Some (Abrupt x, s') \<Rightarrow> Some (Abrupt x, s')))
      else triggerEffects c es s)"

definition trigger ::
  "caller \<Rightarrow> (string \<Rightarrow> int option) \<Rightarrow> target \<Rightarrow> TriggerOpTypes \<Rightarrow> key \<Rightarrow> int option
     \<Rightarrow> state \<Rightarrow> result" where
  "trigger c toNumber tg ty k nv s =
     (case trigger_snapshot toNumber tg ty k nv s of
        Inl x \<Rightarrow> Some (Abrupt x, s)
      | Inr es \<Rightarrow> triggerEffects c es s)"

text \<open>The body of a user function: its calls into the engine, one after the other.\<close>

fun exec :: "caller \<Rightarrow> (string \<Rightarrow> int option) \<Rightarrow> cmd list \<Rightarrow> state \<Rightarrow> result" where
  "exec c tn [] s = Some (Normal Undefined, s)"
| "exec c tn (Track tg k # cs) s = exec c tn cs (track tg k s)"
| "exec c tn (Trigger tg ty k nv # cs) s =
     (case trigger c tn tg ty k nv s of
        None \<Rightarrow> None
      | Some (Normal r, s') \<Rightarrow> exec c tn cs s'
      | Some (Abrupt x, s') \<Rightarrow> Some (Abrupt x, s'))"
| "exec c tn (CallRunner e # cs) s =
     (case run c e s of
        None \<Rightarrow> None
      | Some (Normal r, s') \<Rightarrow> exec c tn cs s'
      | Some (Abrupt x, s') \<Rightarrow> Some (Abrupt x, s'))"
| "exec c tn (CallStop e # cs) s =
     (case stop c e s of
        None \<Rightarrow> None
      | Some (Normal r, s') \<Rightarrow> exec c tn cs s'
      | Some (Abrupt x, s') \<Rightarrow> Some (Abrupt x, s'))"
| "exec c tn (PauseTracking # cs) s = exec c tn cs (pauseTracking s)"
| "exec c tn (EnableTracking # cs) s = exec c tn cs (enableTracking s)"
| "exec c tn (ResetTracking # cs) s = exec c tn cs (resetTracking s)"
| "exec c tn (Throw x # cs) s = Some (Abrupt (Thrown x), s)"

text \<open>
  Calling a user function. Nothing bounds the nesting of such calls (a stopped effect may
  call its own runner), so the call takes the depth \<open>f\<close> of nested calls it may still
  make, as the call stack does; a call that needs more does not return.
\<close>

primrec call :: "(string \<Rightarrow> int option) \<Rightarrow> nat \<Rightarrow> caller" where
  "call tn 0 = (\<lambda>g s. None)"
| "call tn (Suc f) =
     (\<lambda>g s. case g of
        Fn body v \<Rightarrow>
          (case exec (call tn f) tn body s of
             None \<Rightarrow> None
           | Some (Normal r, s') \<Rightarrow> Some (Normal v, s')
           | Some (Abrupt x, s') \<Rightarrow> Some (Abrupt x, s'))
      | RunnerOf r \<Rightarrow> run (call tn f) r s)"

subsection \<open>Creating effects\<close>

text \<open>\<open>new ReactiveEffect(fn)\<close>: the field initialisers and the constructor's defaults.\<close>

definition new_ReactiveEffect :: "func \<Rightarrow> ReactiveEffect" where
  "new_ReactiveEffect g =
     \<lparr>active = True, deps = [], allowRecurse = False, onStop = None, fn = g, scheduler = None\<rparr>"

text \<open>
  \<open>ReactiveEffectOptions\<close>: every property is optional; \<open>None\<close> is a property that the
  options object does not have (\<open>lazy\<close> is only tested for truth).
\<close>

record ReactiveEffectOptions =
  opt_lazy :: bool
  opt_scheduler :: "func option"
  opt_allowRecurse :: "bool option"
  opt_onStop :: "func option"

text \<open>\<open>extend(_effect, options)\<close> is \<open>Object.assign\<close>: the properties the options have
  overwrite those of the effect.\<close>

definition extend :: "ReactiveEffect \<Rightarrow> ReactiveEffectOptions \<Rightarrow> ReactiveEffect" where
  "extend ef opts =
     ef\<lparr>scheduler := (case opt_scheduler opts of None \<Rightarrow> scheduler ef | Some g \<Rightarrow> Some g),
        allowRecurse := (case opt_allowRecurse opts of None \<Rightarrow> allowRecurse ef | Some b \<Rightarrow> b),
        onStop := (case opt_onStop opts of None \<Rightarrow> onStop ef | Some g \<Rightarrow> Some g)\<rparr>"

text \<open>
  \<open>effect(fn, options)\<close> up to the first run: the new effect is allocated at
  \<open>nextEffect\<close>. A function that has an \<open>effect\<close> property is a runner.
\<close>

definition effect_create :: "func \<Rightarrow> ReactiveEffectOptions option \<Rightarrow> state \<Rightarrow> state" where
  "effect_create g options s =
     (let g' = (case g of RunnerOf r \<Rightarrow> fn (effectHeap s r) | Fn body v \<Rightarrow> g);
          ef = new_ReactiveEffect g';
          ef' = (case options of None \<Rightarrow> ef | Some opts \<Rightarrow> extend ef opts)
      in s\<lparr>effectHeap := (effectHeap s)(nextEffect s := ef'), nextEffect := Suc (nextEffect s)\<rparr>)"

text \<open>\<open>effect\<close> returns the runner of the new effect, given here by the effect's address.\<close>

definition effect ::
  "caller \<Rightarrow> func \<Rightarrow> ReactiveEffectOptions option \<Rightarrow> state \<Rightarrow> ((exn + eid) \<times> state) option" where
  "effect c g options s =
     (let e = nextEffect s; s1 = effect_create g options s
      in if (case options of None \<Rightarrow> True | Some opts \<Rightarrow> \<not> opt_lazy opts) then
           (case run c e s1 of
              None \<Rightarrow> None
            | Some (Normal r, s2) \<Rightarrow> Some (Inr e, s2)
            | Some (Abrupt x, s2) \<Rightarrow> Some (Inl x, s2))
         else Some (Inr e, s1))"

text \<open>The state of the module when it has been loaded.\<close>

definition init_state :: state where
  "init_state =
     \<lparr>targetMap = (\<lambda>tg. None),
      depHeap = (\<lambda>d. createDep []),
      nextDep = 0,
      effectHeap = (\<lambda>e. new_ReactiveEffect (Fn [] Undefined)),
      nextEffect = 0,
      effectTrackDepth = 0,
      trackOpBit = 1,
      effectStack = [],
      activeEffect = None,
      shouldTrack = True,
      trackStack = [],
      trace = []\<rparr>"

text \<open>The effects of the dependency sets recorded for a list of keys.\<close>

definition notified :: "state \<Rightarrow> (key \<times> did) list \<Rightarrow> key list \<Rightarrow> eid set" where
  "notified s depsMap ks = (\<Union>k \<in> set ks. set (dep_members s (map_of depsMap k)))"

text \<open>A keyed map with one effect that read the key \<open>a\<close> and one that iterated it.\<close>

definition map_state :: state where
  "map_state =
     init_state
       \<lparr>targetMap := (\<lambda>tg. if tg = MapT 0 then Some [(KString ''a'', 0), (ITERATE_KEY, 1)] else None),
        depHeap := (\<lambda>d. if d = 0 then createDep [0] else if d = 1 then createDep [1] else createDep []),
        nextDep := 2,
        effectHeap := (\<lambda>e. if e = 0 then (new_ReactiveEffect (Fn [Track (MapT 0) (KString ''a'')] Undefined))\<lparr>deps := [0]\<rparr>
                            else if e = 1 then (new_ReactiveEffect (Fn [Track (MapT 0) ITERATE_KEY] Undefined))\<lparr>deps := [1]\<rparr>
                            else new_ReactiveEffect (Fn [] Undefined)),
        nextEffect := 2\<rparr>"

text \<open>The fields of an effect that no operation of the engine writes.\<close>

definition code_of :: "ReactiveEffect \<Rightarrow> func \<times> func option \<times> func option \<times> bool" where
  "code_of x = (fn x, scheduler x, onStop x, allowRecurse x)"

definition stable :: "(state \<Rightarrow> bool) \<Rightarrow> bool" where
  "stable P \<longleftrightarrow>
     (\<forall>s. P s \<longrightarrow>
        (\<forall>ev. P (log_event ev s)) \<and>
        (\<forall>e. active (effectHeap s e) \<and> e \<notin> set (effectStack s) \<longrightarrow> P (run_enter e s)) \<and>
        (\<forall>e. P (run_exit e s)) \<and>
        (\<forall>e. active (effectHeap s e) \<longrightarrow> P (cleanupEffect e s)) \<and>
        (\<forall>e. P (set_inactive e s)) \<and>
        (\<forall>tg k. P (track tg k s)) \<and>
        P (pauseTracking s) \<and> P (enableTracking s) \<and> P (resetTracking s))"

definition preserves :: "(state \<Rightarrow> bool) \<Rightarrow> caller \<Rightarrow> bool" where
  "preserves P c \<longleftrightarrow> (\<forall>g s r s'. P s \<longrightarrow> c g s = Some (r, s') \<longrightarrow> P s')"

text \<open>
  The bookkeeping is symmetric, and every address of a dependency set that an effect or
  the registry holds has been allocated.
\<close>

definition symmetric :: "state \<Rightarrow> bool" where
  "symmetric s \<longleftrightarrow>
     (\<forall>e d. e \<in> set (members (depHeap s d)) \<longleftrightarrow> d \<in> set (deps (effectHeap s e)))"

definition allocated :: "state \<Rightarrow> bool" where
  "allocated s \<longleftrightarrow>
     (\<forall>e d. d \<in> set (deps (effectHeap s e)) \<longrightarrow> d < nextDep s) \<and>
     (\<forall>tg m k d. targetMap s tg = Some m \<longrightarrow> (k, d) \<in> set m \<longrightarrow> d < nextDep s)"

definition bookkeeping :: "state \<Rightarrow> bool" where
  "bookkeeping s \<longleftrightarrow> symmetric s \<and> allocated s"

text \<open>
  The tracking context: the module-level variables that say which effect is running, how
  deeply, and whether reads are tracked.
\<close>

definition ctx :: "state \<Rightarrow> eid list \<times> eid option \<times> int \<times> 32 word \<times> bool \<times> bool list" where
  "ctx s = (effectStack s, activeEffect s, effectTrackDepth s, trackOpBit s, shouldTrack s,
            trackStack s)"

text \<open>
  What \<open>run\<close> keeps true of the context: the marker is \<open>1 << effectTrackDepth\<close> and
  the active effect is the top of the stack.
\<close>

definition wf_ctx :: "state \<Rightarrow> bool" where
  "wf_ctx s \<longleftrightarrow>
     trackOpBit s = shl1 (effectTrackDepth s) \<and>
     activeEffect s = (case effectStack s of [] \<Rightarrow> None | x # xs \<Rightarrow> Some x)"

text \<open>
  User code that leaves the tracking switches alone: it calls none of \<open>pauseTracking\<close>,
  \<open>enableTracking\<close>, \<open>resetTracking\<close>.
\<close>

fun is_switch :: "cmd \<Rightarrow> bool" where
  "is_switch PauseTracking = True"
| "is_switch EnableTracking = True"
| "is_switch ResetTracking = True"
| "is_switch c = False"

fun neutral :: "func \<Rightarrow> bool" where
  "neutral (Fn body v) = list_all (\<lambda>c. \<not> is_switch c) body"
| "neutral (RunnerOf r) = True"

definition neutral_code :: "state \<Rightarrow> bool" where
  "neutral_code s \<longleftrightarrow>
     (\<forall>e. neutral (fn (effectHeap s e)) \<and>
          (case scheduler (effectHeap s e) of None \<Rightarrow> True | Some g \<Rightarrow> neutral g) \<and>
          (case onStop (effectHeap s e) of None \<Rightarrow> True | Some g \<Rightarrow> neutral g))"

definition restores :: "caller \<Rightarrow> bool" where
  "restores c \<longleftrightarrow>
     (\<forall>g s r s'. neutral g \<longrightarrow> neutral_code s \<longrightarrow> wf_ctx s \<longrightarrow> c g s = Some (r, s')
        \<longrightarrow> ctx s' = ctx s)"

text \<open>
  User code that only reads: its calls into the engine are calls of \<open>track\<close>. In a quiet
  state the function and the scheduler of every effect only read.
\<close>

fun is_read :: "cmd \<Rightarrow> bool" where
  "is_read (Track tg k) = True"
| "is_read c = False"

fun reader :: "func \<Rightarrow> bool" where
  "reader (Fn body v) = list_all is_read body"
| "reader (RunnerOf r) = False"


text \<open>The reads of a list of calls, one after the other.\<close>

fun do_reads :: "cmd list \<Rightarrow> state \<Rightarrow> state" where
  "do_reads [] s = s"
| "do_reads (Track tg k # cs) s = do_reads cs (track tg k s)"
| "do_reads (c # cs) s = do_reads cs s"

text \<open>
  What one effect of the array that \<open>triggerEffects\<close> iterates adds to the trace, when
  user code only reads: nothing when the effect is skipped, the call of its scheduler, or
  the call of its \<open>run\<close>, which calls the wrapped function unless the effect is active and
  already running.
\<close>

definition notify_events :: "state \<Rightarrow> eid \<Rightarrow> event list" where
  "notify_events s e =
     (if activeEffect s = Some e \<and> \<not> allowRecurse (effectHeap s e) then []
      else (case scheduler (effectHeap s e) of
              Some g \<Rightarrow> [SchedulerCalled e]
            | None \<Rightarrow>
                RunCalled e #
                (if active (effectHeap s e) \<and> e \<in> set (effectStack s) then [] else [FnCalled e])))"

text \<open>
  Two states that show the same tracking context and the same code and \<open>active\<close> flag
  of every effect.
\<close>

definition same_view :: "state \<Rightarrow> state \<Rightarrow> bool" where
  "same_view s s' \<longleftrightarrow>
     ctx s' = ctx s \<and>
     (\<forall>e. code_of (effectHeap s' e) = code_of (effectHeap s e) \<and>
          active (effectHeap s' e) = active (effectHeap s e))"

text \<open>Every dependency set holds each of its effects once, as a \<open>Set\<close> does.\<close>

definition distinct_members :: "state \<Rightarrow> bool" where
  "distinct_members s \<longleftrightarrow> (\<forall>d. distinct (members (depHeap s d)))"

text \<open>
  What holds while the function of effect \<open>e\<close> reads, in a run within the maximum depth:
  \<open>e\<close> is the active effect and reads are tracked; a set marked "was tracked" or "newly
  tracked" at this depth is in the list \<open>deps\<close> of \<open>e\<close>; and a set marked "newly
  tracked" contains \<open>e\<close>.
\<close>

definition tracking :: "eid \<Rightarrow> state \<Rightarrow> bool" where
  "tracking e t \<longleftrightarrow>
     activeEffect t = Some e \<and> shouldTrack t \<and> effectTrackDepth t \<le> maxMarkerBits \<and>
     trackOpBit t \<noteq> 0 \<and> bookkeeping t \<and> distinct_members t \<and>
     (\<forall>d. wasTracked t (depHeap t d) \<longrightarrow> d \<in> set (deps (effectHeap t e))) \<and>
     (\<forall>d. newTracked t (depHeap t d) \<longrightarrow>
          d \<in> set (deps (effectHeap t e)) \<and> e \<in> set (members (depHeap t d)))"


text \<open>No dependency set carries a marker of the depth that the next run takes.\<close>

definition unmarked :: "state \<Rightarrow> bool" where
  "unmarked s \<longleftrightarrow>
     (\<forall>d. w_marks (depHeap s d) AND shl1 (effectTrackDepth s + 1) = 0 \<and>
          n_marks (depHeap s d) AND shl1 (effectTrackDepth s + 1) = 0)"

text \<open>
  No effect is running, the bookkeeping is consistent and no set carries a marker: the
  state of the module between two calls from outside.
\<close>

definition settled :: "state \<Rightarrow> bool" where
  "settled s \<longleftrightarrow>
     wf_ctx s \<and> effectStack s = [] \<and> effectTrackDepth s = 0 \<and>
     bookkeeping s \<and> distinct_members s \<and> unmarked s"


text \<open>The loaded module with effects that read the key \<open>a\<close> of an object.\<close>

definition reading_state :: state where
  "reading_state =
     init_state\<lparr>effectHeap :=
       (\<lambda>e. new_ReactiveEffect (Fn [Track (OtherT 0) (KString ''a'')] (Val 1)))\<rparr>"

text \<open>
  Effect 0 is running; effect 1 has a scheduler; the other effects have none. No function
  makes a call into the engine.
\<close>

definition notify_state :: state where
  "notify_state =
     init_state
       \<lparr>effectHeap :=
          (\<lambda>e. if e = 1 then (new_ReactiveEffect (Fn [] Undefined))\<lparr>scheduler := Some (Fn [] Undefined)\<rparr>
               else new_ReactiveEffect (Fn [] Undefined)),
        effectTrackDepth := 1, trackOpBit := 2, effectStack := [0], activeEffect := Some 0,
        trackStack := [True]\<rparr>"


text \<open>The loaded module after effect 0, which reads the key \<open>a\<close>, has been created.\<close>

definition runner_state :: state where
  "runner_state = reading_state\<lparr>nextEffect := 1\<rparr>"

text \<open>
  A weaker form of \<open>stable\<close>: the events \<open>RunCalled e\<close> and \<open>SchedulerCalled e\<close> are
  logged for the effects \<open>e\<close> of an array that \<open>trigger\<close> hands to \<open>triggerEffects\<close>
  only, so that an invariant may speak about them for the effects in \<open>Q\<close>.
\<close>

definition stable_on :: "(state \<Rightarrow> bool) \<Rightarrow> (eid \<Rightarrow> bool) \<Rightarrow> bool" where
  "stable_on P Q \<longleftrightarrow>
     (\<forall>s. P s \<longrightarrow>
        (\<forall>e. P (log_event (FnCalled e) s) \<and> P (log_event (OnStopCalled e) s)) \<and>
        (\<forall>e. Q e \<longrightarrow> P (log_event (RunCalled e) s) \<and> P (log_event (SchedulerCalled e) s)) \<and>
        (\<forall>tn tg ty k nv es. trigger_snapshot tn tg ty k nv s = Inr es \<longrightarrow> list_all Q es) \<and>
        (\<forall>e. active (effectHeap s e) \<and> e \<notin> set (effectStack s) \<longrightarrow> P (run_enter e s)) \<and>
        (\<forall>e. P (run_exit e s)) \<and>
        (\<forall>e. active (effectHeap s e) \<longrightarrow> P (cleanupEffect e s)) \<and>
        (\<forall>e. P (set_inactive e s)) \<and>
        (\<forall>tg k. P (track tg k s)) \<and>
        P (pauseTracking s) \<and> P (enableTracking s) \<and> P (resetTracking s))"

text \<open>
  The effect \<open>e\<close> is subscribed nowhere and not running; it is stopped when it is
  moreover inactive. \<open>silent e n s\<close>: from position \<open>n\<close> on, the trace holds no call of
  the scheduler or of \<open>run\<close> of \<open>e\<close> by \<open>triggerEffects\<close>.
\<close>

definition unsubscribed :: "eid \<Rightarrow> state \<Rightarrow> bool" where
  "unsubscribed e s \<longleftrightarrow>
     e \<notin> set (effectStack s) \<and> activeEffect s \<noteq> Some e \<and> deps (effectHeap s e) = [] \<and>
     (\<forall>d. e \<notin> set (members (depHeap s d)))"

definition silent :: "eid \<Rightarrow> nat \<Rightarrow> state \<Rightarrow> bool" where
  "silent e n s \<longleftrightarrow>
     list_all (\<lambda>ev. ev \<noteq> RunCalled e \<and> ev \<noteq> SchedulerCalled e) (drop n (trace s))"

definition stopped :: "eid \<Rightarrow> nat \<Rightarrow> state \<Rightarrow> bool" where
  "stopped e n s \<longleftrightarrow> \<not> active (effectHeap s e) \<and> unsubscribed e s \<and> silent e n s"

text \<open>
  What \<open>track\<close> does for a key without dependency set: \<open>depsMap.set(key, (dep = createDep()))\<close>,
  after \<open>targetMap.set(target, (depsMap = new Map()))\<close> for a target without key table.
\<close>

definition alloc_dep :: "target \<Rightarrow> key \<Rightarrow> state \<Rightarrow> state" where
  "alloc_dep tg k s =
     s\<lparr>targetMap := (targetMap s)(tg \<mapsto>
          (case targetMap s tg of None \<Rightarrow> [] | Some m \<Rightarrow> m) @ [(k, nextDep s)]),
       depHeap := (depHeap s)(nextDep s := createDep []),
       nextDep := Suc (nextDep s)\<rparr>"

text \<open>
  In a run within the maximum depth, every set of the list \<open>deps\<close> of the running effect
  is marked: "was tracked" from the start of the run, or "newly tracked" since its read.
\<close>

definition marked :: "eid \<Rightarrow> state \<Rightarrow> bool" where
  "marked e t \<longleftrightarrow>
     (\<forall>d. d \<in> set (deps (effectHeap t e))
        \<longrightarrow> wasTracked t (depHeap t d) \<or> newTracked t (depHeap t d))"

text \<open>What holds while the function of effect \<open>e\<close> reads, in a run beyond the maximum depth.\<close>

definition fallback :: "eid \<Rightarrow> state \<Rightarrow> bool" where
  "fallback e u \<longleftrightarrow>
     activeEffect u = Some e \<and> shouldTrack u \<and> maxMarkerBits < effectTrackDepth u \<and>
     bookkeeping u"

text \<open>
  The run of \<open>e\<close> within the maximum depth, in state \<open>t\<close>, against its run beyond the
  maximum depth, in state \<open>u\<close>, after the same reads: the key tables are the same, the
  other effects are in the same sets, and \<open>e\<close> is in a set of \<open>u\<close> exactly when the set is
  marked "newly tracked" in \<open>t\<close>.
\<close>

definition edges_match :: "eid \<Rightarrow> state \<Rightarrow> state \<Rightarrow> bool" where
  "edges_match e t u \<longleftrightarrow>
     targetMap u = targetMap t \<and> nextDep u = nextDep t \<and>
     (\<forall>d. set (members (depHeap u d)) - {e} = set (members (depHeap t d)) - {e}) \<and>
     (\<forall>d. e \<in> set (members (depHeap u d)) \<longleftrightarrow> newTracked t (depHeap t d))"

definition simulates :: "eid \<Rightarrow> state \<Rightarrow> state \<Rightarrow> bool" where
  "simulates e t u \<longleftrightarrow> tracking e t \<and> marked e t \<and> fallback e u \<and> edges_match e t u"

text \<open>
  Two states with the same dependency edges: the same key tables, the same effects in
  every dependency set, and the same sets in the list \<open>deps\<close> of every effect.
\<close>

definition same_edges :: "state \<Rightarrow> state \<Rightarrow> bool" where
  "same_edges s u \<longleftrightarrow>
     targetMap u = targetMap s \<and>
     (\<forall>d. set (members (depHeap u d)) = set (members (depHeap s d))) \<and>
     (\<forall>e. set (deps (effectHeap u e)) = set (deps (effectHeap s e)))"

text \<open>
  The keys whose dependency sets a write notifies, in the words of the specification: the
  structural keys of the change kind, and before them the written key itself, unless it
  is \<open>undefined\<close>.
\<close>

fun structural_keys_of :: "target \<Rightarrow> TriggerOpTypes \<Rightarrow> key \<Rightarrow> key list" where
  "structural_keys_of tg ADD k =
     (if \<not> isArray tg then ITERATE_KEY # (if isMap tg then [MAP_KEY_ITERATE_KEY] else [])
      else if isIntegerKey k then [KString ''length''] else [])"
| "structural_keys_of tg DELETE k =
     (if \<not> isArray tg then ITERATE_KEY # (if isMap tg then [MAP_KEY_ITERATE_KEY] else [])
      else [])"
| "structural_keys_of tg SET k = (if isMap tg then [ITERATE_KEY] else [])"
| "structural_keys_of tg CLEAR k = []"

definition written_keys :: "target \<Rightarrow> TriggerOpTypes \<Rightarrow> key \<Rightarrow> key list" where
  "written_keys tg ty k = (if k = KUndefined then [] else [k]) @ structural_keys_of tg ty k"

text \<open>The effects subscribed to a list of keys of a target.\<close>

definition subscribers :: "state \<Rightarrow> target \<Rightarrow> key list \<Rightarrow> eid set" where
  "subscribers s tg ks =
     (case targetMap s tg of None \<Rightarrow> {} | Some depsMap \<Rightarrow> notified s depsMap ks)"

text \<open>
  The part of the tracking context that only \<open>run\<close> writes: the effect stack and the
  depth. A call of user code keeps it when it returns with the stack and the depth it was
  entered with.
\<close>

definition frame :: "state \<Rightarrow> eid list \<times> int" where
  "frame s = (effectStack s, effectTrackDepth s)"

definition keeps_frame :: "caller \<Rightarrow> bool" where
  "keeps_frame c \<longleftrightarrow> (\<forall>g s r s'. c g s = Some (r, s') \<longrightarrow> frame s' = frame s)"

text \<open>
  The loaded module with effects whose function pauses tracking and throws, and the same
  with effects whose function pauses tracking, reads, resets tracking and throws.
\<close>

definition pausing_state :: state where
  "pausing_state =
     init_state\<lparr>effectHeap := (\<lambda>e. new_ReactiveEffect (Fn [PauseTracking, Throw 7] Undefined))\<rparr>"

definition balanced_state :: state where
  "balanced_state =
     init_state\<lparr>effectHeap :=
       (\<lambda>e. new_ReactiveEffect
              (Fn [PauseTracking, Track (OtherT 0) (KString ''a''), ResetTracking, Throw 7]
                 Undefined))\<rparr>"

text \<open>
  Effect 0 reads the key \<open>a\<close> of an object and throws; the other effects read that key.
\<close>

definition thrower_state :: state where
  "thrower_state =
     init_state\<lparr>effectHeap :=
       (\<lambda>e. if e = 0 then new_ReactiveEffect (Fn [Track (OtherT 0) (KString ''a''), Throw 3] Undefined)
            else new_ReactiveEffect (Fn [Track (OtherT 0) (KString ''a'')] Undefined))\<rparr>"






text \<open>
  Effect 0 reads the key \<open>a\<close> of an object and then stops itself; effect 1 reads the key
  \<open>a\<close>; every other effect calls the runner of the effect before it.
\<close>

definition self_stop_state :: state where
  "self_stop_state =
     init_state\<lparr>effectHeap :=
       (\<lambda>e. if e = 0 then new_ReactiveEffect
                (Fn [Track (OtherT 0) (KString ''a''), CallStop 0] Undefined)
            else if e = 1 then new_ReactiveEffect (Fn [Track (OtherT 0) (KString ''a'')] Undefined)
            else new_ReactiveEffect (Fn [CallRunner (e - 1)] Undefined))\<rparr>"

section \<open>Properties\<close>

subsection \<open>Evaluation\<close>

text \<open>The definitions that the simplifier unfolds to run the model on a concrete state.\<close>

lemmas eval_defs =
  effect_create_def effect_def extend_def init_state_def new_ReactiveEffect_def
  run_def run_enter_def run_exit_def stop_def set_inactive_def
  enableTracking_def resetTracking_def pauseTracking_def log_event_def maxMarkerBits_def
  shl1_def initDepMarkers_def finalizeDepMarkers_def finalize_dep_def cleanupEffect_def
  map_dep_def map_deps_def map_effect_def track_def trackEffects_def createDep_def newTracked_def
  wasTracked_def stale_def dep_add_def dep_delete_def trigger_def trigger_snapshot_def
  trigger_deps_def trigger_effects_def dep_members_def ITERATE_KEY_def
  MAP_KEY_ITERATE_KEY_def js_ge_def Let_def

subsection \<open>Sets of effects\<close>

lemma set_foldl_dep_add: "set (foldl (\<lambda>acc e. dep_add e acc) acc es) = set acc \<union> set es"
  by (induction es arbitrary: acc) (auto simp: dep_add_def)


lemma set_members_createDep: "set (members (createDep es)) = set es"
  by (simp add: createDep_def set_foldl_dep_add)


lemma set_trigger_effects:
  "set (trigger_effects s ds) = (\<Union>od \<in> set ds. set (dep_members s od))"
proof (cases "length ds = 1")
  case True
  then obtain od where "ds = [od]" by (cases ds) auto
  then show ?thesis by (simp add: trigger_effects_def)
next
  case False
  then show ?thesis by (simp add: trigger_effects_def set_members_createDep)
qed

lemma structural_keys_differ:
  "ITERATE_KEY \<noteq> KUndefined" "MAP_KEY_ITERATE_KEY \<noteq> KUndefined"
  "ITERATE_KEY \<noteq> MAP_KEY_ITERATE_KEY" "ITERATE_KEY \<noteq> KString x" "MAP_KEY_ITERATE_KEY \<noteq> KString x"
  by (simp_all add: ITERATE_KEY_def MAP_KEY_ITERATE_KEY_def)

lemma length_is_no_integer_key: "\<not> isIntegerKey (KString ''length'')"
  by (simp add: isIntegerKey_def isDigit_def)

subsection \<open>C7: structural keys by change kind\<close>

text \<open>
  C7, as stated, fails on the code. The claim says that in each of its cases the dependency
  set of the written key itself is notified as well. \<open>trigger\<close> pushes that set only
  under the guard \<open>key !== void 0\<close>: a write whose key is \<open>undefined\<close> (a key that
  \<open>track\<close> accepts, as for \<open>map.get(undefined)\<close>) notifies the structural keys only.
  Below, effect 0 reads the key \<open>undefined\<close> of a keyed map; the following \<open>ADD\<close> of
  that key collects no set of that key and does not run the effect: the trace holds the
  first execution only.
\<close>

theorem structural_keys_undefined_key_counterexample:
  "trigger_deps (\<lambda>x. None) [(KUndefined, 0)] (MapT 0) ADD KUndefined None = Inr [None, None] \<and>
   map_option (\<lambda>r. trace (snd r))
     (exec (call (\<lambda>x. None) 1) (\<lambda>x. None)
        [CallRunner 0, Trigger (MapT 0) ADD KUndefined None]
        (effect_create (Fn [Track (MapT 0) KUndefined] Undefined) None init_state))
   = Some [FnCalled 0]"
  by (simp add: eval_defs)

subsection \<open>C8: a change of the length of an array\<close>

text \<open>
  C8 does not hold on the code, by a case the code misses. For \<open>key === 'length'\<close> on an
  array, \<open>trigger\<close> compares every key of the key table with the new length
  (\<open>key >= newValue\<close>). The claim includes key tables that hold symbol keys; comparing a
  symbol raises a \<open>TypeError\<close>, so \<open>trigger\<close> throws out of the \<open>forEach\<close> and
  notifies no set at all. Below, effect 0 reads \<open>length\<close>, the index \<open>0\<close> and a symbol
  key of an array; setting the length to 0 must notify the sets of \<open>length\<close> and of
  \<open>0\<close>, and so run effect 0. The call completes with the \<open>TypeError\<close>, and the trace
  holds the first execution of the effect only.
\<close>

theorem length_trigger_symbol_key_throws:
  "map_option (\<lambda>r. (fst r, trace (snd r), targetMap (snd r) (ArrayT 0)))
     (exec (call (\<lambda>x. if x = ''0'' then Some 0 else None) 1)
        (\<lambda>x. if x = ''0'' then Some 0 else None)
        [CallRunner 0, Trigger (ArrayT 0) SET (KString ''length'') (Some 0)]
        (effect_create
           (Fn [Track (ArrayT 0) (KString ''length''), Track (ArrayT 0) (KString ''0''),
                Track (ArrayT 0) (KSymbol 7)] Undefined)
           None init_state))
   = Some (Abrupt TypeError, [FnCalled 0],
           Some [(KString ''length'', 0), (KString ''0'', 1), (KSymbol 7, 2)])"
  by (simp add: eval_defs)

subsection \<open>How the primitive operations change the state\<close>

lemma map_dep_fields [simp]:
  "targetMap (map_dep d g s) = targetMap s"
  "nextDep (map_dep d g s) = nextDep s"
  "effectHeap (map_dep d g s) = effectHeap s"
  "nextEffect (map_dep d g s) = nextEffect s"
  "effectTrackDepth (map_dep d g s) = effectTrackDepth s"
  "trackOpBit (map_dep d g s) = trackOpBit s"
  "effectStack (map_dep d g s) = effectStack s"
  "activeEffect (map_dep d g s) = activeEffect s"
  "shouldTrack (map_dep d g s) = shouldTrack s"
  "trackStack (map_dep d g s) = trackStack s"
  "trace (map_dep d g s) = trace s"
  "depHeap (map_dep d g s) = (depHeap s)(d := g (depHeap s d))"
  by (simp_all add: map_dep_def)

lemma map_deps_fields [simp]:
  "targetMap (map_deps ds g s) = targetMap s"
  "nextDep (map_deps ds g s) = nextDep s"
  "effectHeap (map_deps ds g s) = effectHeap s"
  "nextEffect (map_deps ds g s) = nextEffect s"
  "effectTrackDepth (map_deps ds g s) = effectTrackDepth s"
  "trackOpBit (map_deps ds g s) = trackOpBit s"
  "effectStack (map_deps ds g s) = effectStack s"
  "activeEffect (map_deps ds g s) = activeEffect s"
  "shouldTrack (map_deps ds g s) = shouldTrack s"
  "trackStack (map_deps ds g s) = trackStack s"
  "trace (map_deps ds g s) = trace s"
  unfolding map_deps_def by (induction ds arbitrary: s; simp)+

lemma depHeap_map_deps:
  assumes "\<And>x. g (g x) = g x"
  shows "depHeap (map_deps ds g s) d = (if d \<in> set ds then g (depHeap s d) else depHeap s d)"
  unfolding map_deps_def
proof (induction ds arbitrary: s)
  case Nil
  then show ?case by simp
next
  case (Cons a ds)
  then show ?case by (simp add: assms)
qed

lemma map_effect_fields [simp]:
  "targetMap (map_effect e g s) = targetMap s"
  "nextDep (map_effect e g s) = nextDep s"
  "depHeap (map_effect e g s) = depHeap s"
  "nextEffect (map_effect e g s) = nextEffect s"
  "effectTrackDepth (map_effect e g s) = effectTrackDepth s"
  "trackOpBit (map_effect e g s) = trackOpBit s"
  "effectStack (map_effect e g s) = effectStack s"
  "activeEffect (map_effect e g s) = activeEffect s"
  "shouldTrack (map_effect e g s) = shouldTrack s"
  "trackStack (map_effect e g s) = trackStack s"
  "trace (map_effect e g s) = trace s"
  "effectHeap (map_effect e g s) = (effectHeap s)(e := g (effectHeap s e))"
  by (simp_all add: map_effect_def)

lemma log_event_fields [simp]:
  "targetMap (log_event ev s) = targetMap s"
  "nextDep (log_event ev s) = nextDep s"
  "depHeap (log_event ev s) = depHeap s"
  "effectHeap (log_event ev s) = effectHeap s"
  "nextEffect (log_event ev s) = nextEffect s"
  "effectTrackDepth (log_event ev s) = effectTrackDepth s"
  "trackOpBit (log_event ev s) = trackOpBit s"
  "effectStack (log_event ev s) = effectStack s"
  "activeEffect (log_event ev s) = activeEffect s"
  "shouldTrack (log_event ev s) = shouldTrack s"
  "trackStack (log_event ev s) = trackStack s"
  "trace (log_event ev s) = trace s @ [ev]"
  by (simp_all add: log_event_def)

lemma finalize_dep_idem: "finalize_dep e s (finalize_dep e s x) = finalize_dep e s x"
  by (simp add: finalize_dep_def stale_def wasTracked_def newTracked_def
      bit.conj_disj_distrib and.assoc)

lemma depHeap_initDepMarkers:
  "depHeap (initDepMarkers e s) d =
     (if d \<in> set (deps (effectHeap s e))
      then (depHeap s d)\<lparr>w_marks := w_marks (depHeap s d) OR trackOpBit s\<rparr>
      else depHeap s d)"
  by (simp add: initDepMarkers_def depHeap_map_deps or.assoc)

lemma depHeap_cleanupEffect:
  "depHeap (cleanupEffect e s) d =
     (if d \<in> set (deps (effectHeap s e))
      then (depHeap s d)\<lparr>members := dep_delete e (members (depHeap s d))\<rparr>
      else depHeap s d)"
  by (simp add: cleanupEffect_def Let_def depHeap_map_deps dep_delete_def)

lemma depHeap_finalizeDepMarkers:
  "depHeap (finalizeDepMarkers e s) d =
     (if d \<in> set (deps (effectHeap s e)) then finalize_dep e s (depHeap s d) else depHeap s d)"
  by (simp add: finalizeDepMarkers_def Let_def depHeap_map_deps finalize_dep_idem)

lemma cleanupEffect_fields [simp]:
  "targetMap (cleanupEffect e s) = targetMap s"
  "nextDep (cleanupEffect e s) = nextDep s"
  "nextEffect (cleanupEffect e s) = nextEffect s"
  "effectTrackDepth (cleanupEffect e s) = effectTrackDepth s"
  "trackOpBit (cleanupEffect e s) = trackOpBit s"
  "effectStack (cleanupEffect e s) = effectStack s"
  "activeEffect (cleanupEffect e s) = activeEffect s"
  "shouldTrack (cleanupEffect e s) = shouldTrack s"
  "trackStack (cleanupEffect e s) = trackStack s"
  "trace (cleanupEffect e s) = trace s"
  by (simp_all add: cleanupEffect_def Let_def)

lemma initDepMarkers_fields [simp]:
  "targetMap (initDepMarkers e s) = targetMap s"
  "nextDep (initDepMarkers e s) = nextDep s"
  "effectHeap (initDepMarkers e s) = effectHeap s"
  "nextEffect (initDepMarkers e s) = nextEffect s"
  "effectTrackDepth (initDepMarkers e s) = effectTrackDepth s"
  "trackOpBit (initDepMarkers e s) = trackOpBit s"
  "effectStack (initDepMarkers e s) = effectStack s"
  "activeEffect (initDepMarkers e s) = activeEffect s"
  "shouldTrack (initDepMarkers e s) = shouldTrack s"
  "trackStack (initDepMarkers e s) = trackStack s"
  "trace (initDepMarkers e s) = trace s"
  by (simp_all add: initDepMarkers_def)

lemma finalizeDepMarkers_fields [simp]:
  "targetMap (finalizeDepMarkers e s) = targetMap s"
  "nextDep (finalizeDepMarkers e s) = nextDep s"
  "nextEffect (finalizeDepMarkers e s) = nextEffect s"
  "effectTrackDepth (finalizeDepMarkers e s) = effectTrackDepth s"
  "trackOpBit (finalizeDepMarkers e s) = trackOpBit s"
  "effectStack (finalizeDepMarkers e s) = effectStack s"
  "activeEffect (finalizeDepMarkers e s) = activeEffect s"
  "shouldTrack (finalizeDepMarkers e s) = shouldTrack s"
  "trackStack (finalizeDepMarkers e s) = trackStack s"
  "trace (finalizeDepMarkers e s) = trace s"
  by (simp_all add: finalizeDepMarkers_def Let_def)

lemma set_inactive_fields [simp]:
  "targetMap (set_inactive e s) = targetMap s"
  "nextDep (set_inactive e s) = nextDep s"
  "depHeap (set_inactive e s) = depHeap s"
  "nextEffect (set_inactive e s) = nextEffect s"
  "effectTrackDepth (set_inactive e s) = effectTrackDepth s"
  "trackOpBit (set_inactive e s) = trackOpBit s"
  "effectStack (set_inactive e s) = effectStack s"
  "activeEffect (set_inactive e s) = activeEffect s"
  "shouldTrack (set_inactive e s) = shouldTrack s"
  "trackStack (set_inactive e s) = trackStack s"
  "trace (set_inactive e s) = trace s"
  by (simp_all add: set_inactive_def)

lemma trackEffects_fields [simp]:
  "targetMap (trackEffects d e s) = targetMap s"
  "nextDep (trackEffects d e s) = nextDep s"
  "nextEffect (trackEffects d e s) = nextEffect s"
  "effectTrackDepth (trackEffects d e s) = effectTrackDepth s"
  "trackOpBit (trackEffects d e s) = trackOpBit s"
  "effectStack (trackEffects d e s) = effectStack s"
  "activeEffect (trackEffects d e s) = activeEffect s"
  "shouldTrack (trackEffects d e s) = shouldTrack s"
  "trackStack (trackEffects d e s) = trackStack s"
  "trace (trackEffects d e s) = trace s"
  by (simp_all add: trackEffects_def Let_def split: prod.splits)

lemma track_fields [simp]:
  "nextEffect (track tg k s) = nextEffect s"
  "effectTrackDepth (track tg k s) = effectTrackDepth s"
  "trackOpBit (track tg k s) = trackOpBit s"
  "effectStack (track tg k s) = effectStack s"
  "activeEffect (track tg k s) = activeEffect s"
  "shouldTrack (track tg k s) = shouldTrack s"
  "trackStack (track tg k s) = trackStack s"
  "trace (track tg k s) = trace s"
  by (simp_all add: track_def Let_def split: option.splits prod.splits)

lemma pauseTracking_fields [simp]:
  "targetMap (pauseTracking s) = targetMap s"
  "nextDep (pauseTracking s) = nextDep s"
  "depHeap (pauseTracking s) = depHeap s"
  "effectHeap (pauseTracking s) = effectHeap s"
  "nextEffect (pauseTracking s) = nextEffect s"
  "effectTrackDepth (pauseTracking s) = effectTrackDepth s"
  "trackOpBit (pauseTracking s) = trackOpBit s"
  "effectStack (pauseTracking s) = effectStack s"
  "activeEffect (pauseTracking s) = activeEffect s"
  "trace (pauseTracking s) = trace s"
  by (simp_all add: pauseTracking_def)

lemma enableTracking_fields [simp]:
  "targetMap (enableTracking s) = targetMap s"
  "nextDep (enableTracking s) = nextDep s"
  "depHeap (enableTracking s) = depHeap s"
  "effectHeap (enableTracking s) = effectHeap s"
  "nextEffect (enableTracking s) = nextEffect s"
  "effectTrackDepth (enableTracking s) = effectTrackDepth s"
  "trackOpBit (enableTracking s) = trackOpBit s"
  "effectStack (enableTracking s) = effectStack s"
  "activeEffect (enableTracking s) = activeEffect s"
  "trace (enableTracking s) = trace s"
  by (simp_all add: enableTracking_def)

lemma resetTracking_fields [simp]:
  "targetMap (resetTracking s) = targetMap s"
  "nextDep (resetTracking s) = nextDep s"
  "depHeap (resetTracking s) = depHeap s"
  "effectHeap (resetTracking s) = effectHeap s"
  "nextEffect (resetTracking s) = nextEffect s"
  "effectTrackDepth (resetTracking s) = effectTrackDepth s"
  "trackOpBit (resetTracking s) = trackOpBit s"
  "effectStack (resetTracking s) = effectStack s"
  "activeEffect (resetTracking s) = activeEffect s"
  "trace (resetTracking s) = trace s"
  by (simp_all add: resetTracking_def split: list.splits)

lemma run_enter_fields [simp]:
  "targetMap (run_enter e s) = targetMap s"
  "nextDep (run_enter e s) = nextDep s"
  "nextEffect (run_enter e s) = nextEffect s"
  "trace (run_enter e s) = trace s"
  by (simp_all add: run_enter_def Let_def)

lemma run_exit_fields [simp]:
  "targetMap (run_exit e s) = targetMap s"
  "nextDep (run_exit e s) = nextDep s"
  "nextEffect (run_exit e s) = nextEffect s"
  "trace (run_exit e s) = trace s"
  by (simp_all add: run_exit_def Let_def)

lemma effectHeap_cleanupEffect [simp]:
  "effectHeap (cleanupEffect e s) = (effectHeap s)(e := (effectHeap s e)\<lparr>deps := []\<rparr>)"
  by (simp add: cleanupEffect_def Let_def)

lemma effectHeap_finalizeDepMarkers [simp]:
  "effectHeap (finalizeDepMarkers e s) =
     (effectHeap s)(e := (effectHeap s e)
        \<lparr>deps := filter (\<lambda>d. \<not> stale s (depHeap s d)) (deps (effectHeap s e))\<rparr>)"
  by (simp add: finalizeDepMarkers_def Let_def)

lemma effectHeap_set_inactive [simp]:
  "effectHeap (set_inactive e s) = (effectHeap s)(e := (effectHeap s e)\<lparr>active := False\<rparr>)"
  by (simp add: set_inactive_def)

lemma run_enter_ctx [simp]:
  "effectStack (run_enter e s) = e # effectStack s"
  "activeEffect (run_enter e s) = Some e"
  "effectTrackDepth (run_enter e s) = effectTrackDepth s + 1"
  "trackOpBit (run_enter e s) = shl1 (effectTrackDepth s + 1)"
  "shouldTrack (run_enter e s) = True"
  "trackStack (run_enter e s) = shouldTrack s # trackStack s"
  by (simp_all add: run_enter_def Let_def enableTracking_def)

lemma run_exit_ctx [simp]:
  "effectStack (run_exit e s) = tl (effectStack s)"
  "activeEffect (run_exit e s) = (case tl (effectStack s) of [] \<Rightarrow> None | x # xs \<Rightarrow> Some x)"
  "effectTrackDepth (run_exit e s) = effectTrackDepth s - 1"
  "trackOpBit (run_exit e s) = shl1 (effectTrackDepth s - 1)"
  "shouldTrack (run_exit e s) = (case trackStack s of [] \<Rightarrow> True | b # bs \<Rightarrow> b)"
  "trackStack (run_exit e s) = tl (trackStack s)"
  by (simp_all add: run_exit_def Let_def resetTracking_def split: list.splits)

subsection \<open>Invariants of the engine\<close>

lemma preservesD: "preserves P c \<Longrightarrow> P s \<Longrightarrow> c g s = Some (r, s') \<Longrightarrow> P s'"
  unfolding preserves_def by blast

lemma run_preserves:
  assumes "stable P" and "preserves P c" and "P s" and "run c e s = Some (r, s')"
  shows "P s'"
proof (cases "active (effectHeap s e)")
  case False
  with assms(4) have "c (fn (effectHeap s e)) (log_event (FnCalled e) s) = Some (r, s')"
    by (simp add: run_def)
  moreover from assms(1,3) have "P (log_event (FnCalled e) s)" by (simp add: stable_def)
  ultimately show ?thesis using assms(2) by (blast dest: preservesD)
next
  case True
  show ?thesis
  proof (cases "e \<in> set (effectStack s)")
    case True
    with \<open>active (effectHeap s e)\<close> assms(3,4) show ?thesis by (simp add: run_def)
  next
    case False
    with \<open>active (effectHeap s e)\<close> assms(4) obtain s1 where
      c: "c (fn (effectHeap s e)) (log_event (FnCalled e) (run_enter e s)) = Some (r, s1)"
      and s': "s' = run_exit e s1"
      by (auto simp: run_def split: option.splits)
    from assms(1,3) \<open>active (effectHeap s e)\<close> False have "P (run_enter e s)"
      by (simp add: stable_def)
    with assms(1) have "P (log_event (FnCalled e) (run_enter e s))" by (simp add: stable_def)
    with assms(2) c have "P s1" by (blast dest: preservesD)
    with assms(1) s' show ?thesis by (simp add: stable_def)
  qed
qed

lemma stop_preserves:
  assumes "stable P" and "preserves P c" and "P s" and "stop c e s = Some (r, s')"
  shows "P s'"
proof (cases "active (effectHeap s e)")
  case False
  with assms(3,4) show ?thesis by (simp add: stop_def)
next
  case True
  with assms(1,3) have cl: "P (cleanupEffect e s)" by (simp add: stable_def)
  show ?thesis
  proof (cases "onStop (effectHeap s e)")
    case None
    with True assms(4) have "s' = set_inactive e (cleanupEffect e s)" by (simp add: stop_def)
    with cl assms(1) show ?thesis by (simp add: stable_def)
  next
    case (Some g)
    with True assms(4) obtain r1 s1 where
      c: "c g (log_event (OnStopCalled e) (cleanupEffect e s)) = Some (r1, s1)"
      and s': "s' = set_inactive e s1 \<or> s' = s1"
      by (auto simp: stop_def split: option.splits completion.splits)
    from cl assms(1) have "P (log_event (OnStopCalled e) (cleanupEffect e s))"
      by (simp add: stable_def)
    with assms(2) c have "P s1" by (blast dest: preservesD)
    with assms(1) s' show ?thesis by (auto simp: stable_def)
  qed
qed

lemma triggerEffects_preserves:
  assumes "stable P" and "preserves P c"
  shows "P s \<Longrightarrow> triggerEffects c es s = Some (r, s') \<Longrightarrow> P s'"
proof (induction es arbitrary: s)
  case Nil
  then show ?case by simp
next
  case (Cons e es)
  show ?case
  proof (cases "activeEffect s \<noteq> Some e \<or> allowRecurse (effectHeap s e)")
    case False
    with Cons show ?thesis by simp
  next
    case True
    from assms(1) Cons.prems(1) have lg: "\<And>ev. P (log_event ev s)" by (simp add: stable_def)
    show ?thesis
    proof (cases "scheduler (effectHeap s e)")
      case None
      with True Cons.prems(2) obtain r1 s1 where
        r: "run c e (log_event (RunCalled e) s) = Some (r1, s1)"
        and rest: "(\<exists>v. r1 = Normal v \<and> triggerEffects c es s1 = Some (r, s')) \<or> s' = s1"
        by (auto split: option.splits completion.splits)
      from run_preserves[OF assms lg r] have "P s1" .
      with rest Cons.IH show ?thesis by auto
    next
      case (Some g)
      with True Cons.prems(2) obtain r1 s1 where
        r: "c g (log_event (SchedulerCalled e) s) = Some (r1, s1)"
        and rest: "(\<exists>v. r1 = Normal v \<and> triggerEffects c es s1 = Some (r, s')) \<or> s' = s1"
        by (auto split: option.splits completion.splits)
      from preservesD[OF assms(2) lg r] have "P s1" .
      with rest Cons.IH show ?thesis by auto
    qed
  qed
qed

lemma trigger_preserves:
  assumes "stable P" and "preserves P c" and "P s" and "trigger c tn tg ty k nv s = Some (r, s')"
  shows "P s'"
  using assms(3,4) triggerEffects_preserves[OF assms(1,2)]
  by (auto simp: trigger_def split: sum.splits)

lemma exec_preserves:
  assumes "stable P" and "preserves P c"
  shows "P s \<Longrightarrow> exec c tn cs s = Some (r, s') \<Longrightarrow> P s'"
proof (induction cs arbitrary: s)
  case Nil
  then show ?case by simp
next
  case (Cons cmd cs)
  from assms(1) Cons.prems(1) have prim:
    "\<And>tg k. P (track tg k s)" "P (pauseTracking s)" "P (enableTracking s)" "P (resetTracking s)"
    by (simp_all add: stable_def)
  show ?case
  proof (cases cmd)
    case (Track tg k)
    with Cons.prems prim show ?thesis by (auto intro: Cons.IH)
  next
    case (Trigger tg ty k nv)
    with Cons.prems(2) obtain r1 s1 where
      t: "trigger c tn tg ty k nv s = Some (r1, s1)"
      and rest: "(\<exists>v. r1 = Normal v \<and> exec c tn cs s1 = Some (r, s')) \<or> s' = s1"
      by (auto split: option.splits completion.splits)
    from trigger_preserves[OF assms Cons.prems(1) t] have "P s1" .
    with rest Cons.IH show ?thesis by auto
  next
    case (CallRunner e)
    with Cons.prems(2) obtain r1 s1 where
      t: "run c e s = Some (r1, s1)"
      and rest: "(\<exists>v. r1 = Normal v \<and> exec c tn cs s1 = Some (r, s')) \<or> s' = s1"
      by (auto split: option.splits completion.splits)
    from run_preserves[OF assms Cons.prems(1) t] have "P s1" .
    with rest Cons.IH show ?thesis by auto
  next
    case (CallStop e)
    with Cons.prems(2) obtain r1 s1 where
      t: "stop c e s = Some (r1, s1)"
      and rest: "(\<exists>v. r1 = Normal v \<and> exec c tn cs s1 = Some (r, s')) \<or> s' = s1"
      by (auto split: option.splits completion.splits)
    from stop_preserves[OF assms Cons.prems(1) t] have "P s1" .
    with rest Cons.IH show ?thesis by auto
  next
    case PauseTracking
    with Cons.prems prim show ?thesis by (auto intro: Cons.IH)
  next
    case EnableTracking
    with Cons.prems prim show ?thesis by (auto intro: Cons.IH)
  next
    case ResetTracking
    with Cons.prems prim show ?thesis by (auto intro: Cons.IH)
  next
    case (Throw x)
    with Cons.prems show ?thesis by simp
  qed
qed

lemma call_preserves:
  assumes "stable P"
  shows "preserves P (call tn f)"
proof (induction f)
  case 0
  show ?case by (simp add: preserves_def)
next
  case (Suc f)
  show ?case
    unfolding preserves_def
  proof (intro allI impI)
    fix g s r s'
    assume P: "P s" and c: "call tn (Suc f) g s = Some (r, s')"
    show "P s'"
    proof (cases g)
      case (Fn body v)
      with c obtain r1 where "exec (call tn f) tn body s = Some (r1, s')"
        by (auto split: option.splits completion.splits)
      from exec_preserves[OF assms Suc P this] show ?thesis .
    next
      case (RunnerOf e)
      with c have "run (call tn f) e s = Some (r, s')" by simp
      from run_preserves[OF assms Suc P this] show ?thesis .
    qed
  qed
qed

subsection \<open>The bookkeeping invariant\<close>

lemma set_dep_add [simp]: "set (dep_add e es) = insert e (set es)"
  by (auto simp: dep_add_def)

lemma set_dep_delete [simp]: "set (dep_delete e es) = set es - {e}"
  by (auto simp: dep_delete_def)

lemma bookkeeping_cleanupEffect: "bookkeeping s \<Longrightarrow> bookkeeping (cleanupEffect e s)"
  unfolding bookkeeping_def symmetric_def allocated_def
  by (auto simp: depHeap_cleanupEffect)

lemma members_finalize_dep:
  "set (members (finalize_dep e s x)) = (if stale s x then set (members x) - {e} else set (members x))"
  by (simp add: finalize_dep_def)

lemma bookkeeping_finalizeDepMarkers: "bookkeeping s \<Longrightarrow> bookkeeping (finalizeDepMarkers e s)"
  unfolding bookkeeping_def symmetric_def allocated_def
  by (auto simp: depHeap_finalizeDepMarkers members_finalize_dep)

lemma bookkeeping_initDepMarkers: "bookkeeping s \<Longrightarrow> bookkeeping (initDepMarkers e s)"
  unfolding bookkeeping_def symmetric_def allocated_def
  by (auto simp: depHeap_initDepMarkers)

lemma bookkeeping_trackEffects:
  "bookkeeping s \<Longrightarrow> d < nextDep s \<Longrightarrow> bookkeeping (trackEffects d e s)"
  unfolding bookkeeping_def symmetric_def allocated_def
  by (auto simp: trackEffects_def Let_def split: if_splits)

lemma bookkeeping_track: "bookkeeping s \<Longrightarrow> bookkeeping (track tg k s)"
proof (cases "activeEffect s")
  case None
  then show "bookkeeping s \<Longrightarrow> ?thesis" by (simp add: track_def)
next
  case (Some e)
  assume inv: "bookkeeping s"
  show ?thesis
  proof (cases "shouldTrack s")
    case False
    with Some inv show ?thesis by (simp add: track_def)
  next
    case True
    define m where "m = (case targetMap s tg of None \<Rightarrow> [] | Some m \<Rightarrow> m)"
    define s1 where "s1 = (case targetMap s tg of None \<Rightarrow> s\<lparr>targetMap := (targetMap s)(tg \<mapsto> [])\<rparr> | Some m \<Rightarrow> s)"
    have inv1: "bookkeeping s1" and tm1: "targetMap s1 tg = Some m" and nd1: "nextDep s1 = nextDep s"
      using inv unfolding s1_def m_def bookkeeping_def symmetric_def allocated_def
      by (auto split: option.splits)
    show ?thesis
    proof (cases "map_of m k")
      case (Some d)
      then have "(k, d) \<in> set m" by (rule map_of_SomeD)
      with inv1 tm1 have "d < nextDep s1" by (auto simp: bookkeeping_def allocated_def)
      from bookkeeping_trackEffects[OF inv1 this, of e]
      have "bookkeeping (trackEffects d e s1)" .
      moreover have "track tg k s = trackEffects d e s1"
        using \<open>activeEffect s = Some e\<close> True Some
        by (auto simp: track_def s1_def m_def split: option.splits)
      ultimately show ?thesis by simp
    next
      case None
      define s2 where "s2 = s1\<lparr>targetMap := (targetMap s1)(tg \<mapsto> m @ [(k, nextDep s1)]),
                            depHeap := (depHeap s1)(nextDep s1 := createDep []),
                            nextDep := Suc (nextDep s1)\<rparr>"
      have "\<And>e. nextDep s1 \<notin> set (deps (effectHeap s1 e))"
        using inv1 by (auto simp: bookkeeping_def allocated_def)
      then have sym2: "symmetric s2"
        using inv1 unfolding s2_def bookkeeping_def symmetric_def
        by (auto simp: createDep_def)
      have "allocated s2"
        using inv1 tm1 unfolding s2_def bookkeeping_def allocated_def
        by (auto simp: less_Suc_eq split: if_splits)
      with sym2 have inv2: "bookkeeping s2" by (simp add: bookkeeping_def)
      have "nextDep s1 < nextDep s2" by (simp add: s2_def)
      from bookkeeping_trackEffects[OF inv2 this, of e]
      have "bookkeeping (trackEffects (nextDep s1) e s2)" .
      moreover have "track tg k s = trackEffects (nextDep s1) e s2"
        using \<open>activeEffect s = Some e\<close> True None
        by (auto simp: track_def s1_def s2_def m_def split: option.splits)
      ultimately show ?thesis by simp
    qed
  qed
qed

lemma bookkeeping_ctx_update:
  "bookkeeping (s\<lparr>activeEffect := a, effectStack := st\<rparr>) = bookkeeping s"
  "bookkeeping (s\<lparr>effectTrackDepth := i, trackOpBit := b\<rparr>) = bookkeeping s"
  "bookkeeping (s\<lparr>effectStack := st, activeEffect := a\<rparr>) = bookkeeping s"
  "bookkeeping (enableTracking s) = bookkeeping s"
  "bookkeeping (pauseTracking s) = bookkeeping s"
  "bookkeeping (resetTracking s) = bookkeeping s"
  "bookkeeping (log_event ev s) = bookkeeping s"
  by (simp_all add: bookkeeping_def symmetric_def allocated_def)

lemma bookkeeping_set_inactive: "bookkeeping s \<Longrightarrow> bookkeeping (set_inactive e s)"
  by (simp add: bookkeeping_def symmetric_def allocated_def)

lemma bookkeeping_run_enter: "bookkeeping s \<Longrightarrow> bookkeeping (run_enter e s)"
  by (simp add: run_enter_def Let_def bookkeeping_ctx_update bookkeeping_initDepMarkers
      bookkeeping_cleanupEffect)

lemma bookkeeping_run_exit: "bookkeeping s \<Longrightarrow> bookkeeping (run_exit e s)"
  by (simp add: run_exit_def Let_def bookkeeping_ctx_update bookkeeping_finalizeDepMarkers)

lemma stable_bookkeeping: "stable bookkeeping"
  unfolding stable_def
  by (simp add: bookkeeping_ctx_update bookkeeping_run_enter bookkeeping_run_exit
      bookkeeping_cleanupEffect bookkeeping_track bookkeeping_set_inactive)

lemma bookkeeping_loaded:
  "\<forall>e. deps (H e) = [] \<Longrightarrow> bookkeeping (init_state\<lparr>effectHeap := H\<rparr>)"
  by (simp add: bookkeeping_def symmetric_def allocated_def init_state_def createDep_def)

subsection \<open>C2: the bookkeeping is symmetric\<close>

text \<open>
  C2: start from the loaded module with any effects created and not yet run (no effect has
  a dependency), and let user code make any sequence of calls to \<open>track\<close>, \<open>trigger\<close>,
  runners and \<open>stop\<close>, nested in any way, whether it returns or throws. In the state
  that results, a dependency set contains an effect if and only if the effect's list
  \<open>deps\<close> contains that set.
\<close>

theorem symmetric_bookkeeping:
  assumes "\<forall>e. deps (H e) = []"
    and "exec (call tn f) tn cmds (init_state\<lparr>effectHeap := H\<rparr>) = Some (r, s')"
  shows "e \<in> set (members (depHeap s' d)) \<longleftrightarrow> d \<in> set (deps (effectHeap s' e))"
proof -
  from assms(1) have "bookkeeping (init_state\<lparr>effectHeap := H\<rparr>)" by (rule bookkeeping_loaded)
  with exec_preserves[OF stable_bookkeeping call_preserves[OF stable_bookkeeping]] assms(2)
  have "bookkeeping s'" by blast
  then show ?thesis by (simp add: bookkeeping_def symmetric_def)
qed

theorem symmetric_bookkeeping_witness:
  "(\<forall>e. deps (new_ReactiveEffect (Fn [Track (OtherT 0) (KString ''a'')] Undefined)) = []) \<and>
   (\<exists>r s'. exec (call (\<lambda>x. None) 1) (\<lambda>x. None)
              [CallRunner 0, CallRunner 1, Trigger (OtherT 0) SET (KString ''a'') None, CallStop 0]
              (init_state\<lparr>effectHeap :=
                 (\<lambda>e. new_ReactiveEffect (Fn [Track (OtherT 0) (KString ''a'')] Undefined))\<rparr>)
            = Some (r, s') \<and>
            (1 \<in> set (members (depHeap s' 0)) \<longleftrightarrow> 0 \<in> set (deps (effectHeap s' 1))))"
proof -
  let ?H = "\<lambda>e::eid. new_ReactiveEffect (Fn [Track (OtherT 0) (KString ''a'')] Undefined)"
  have h: "\<forall>e. deps (?H e) = []" by (simp add: new_ReactiveEffect_def)
  have "\<exists>r s'. exec (call (\<lambda>x. None) 1) (\<lambda>x. None)
              [CallRunner 0, CallRunner 1, Trigger (OtherT 0) SET (KString ''a'') None, CallStop 0]
              (init_state\<lparr>effectHeap := ?H\<rparr>) = Some (r, s')"
    by (simp add: eval_defs)
  then obtain r s' where ex: "exec (call (\<lambda>x. None) 1) (\<lambda>x. None)
              [CallRunner 0, CallRunner 1, Trigger (OtherT 0) SET (KString ''a'') None, CallStop 0]
              (init_state\<lparr>effectHeap := ?H\<rparr>) = Some (r, s')" by blast
  from symmetric_bookkeeping[OF h ex, of 1 0] h ex show ?thesis by blast
qed

subsection \<open>The code of the effects is never written\<close>

lemma code_of_cleanupEffect [simp]:
  "code_of (effectHeap (cleanupEffect e s) e') = code_of (effectHeap s e')"
  by (simp add: code_of_def)

lemma code_of_finalizeDepMarkers [simp]:
  "code_of (effectHeap (finalizeDepMarkers e s) e') = code_of (effectHeap s e')"
  by (simp add: code_of_def)

lemma code_of_set_inactive [simp]:
  "code_of (effectHeap (set_inactive e s) e') = code_of (effectHeap s e')"
  by (simp add: code_of_def)

lemma code_of_trackEffects [simp]:
  "code_of (effectHeap (trackEffects d e s) e') = code_of (effectHeap s e')"
  by (simp add: code_of_def trackEffects_def Let_def split: prod.splits)

lemma code_of_track [simp]:
  "code_of (effectHeap (track tg k s) e') = code_of (effectHeap s e')"
  by (simp add: track_def Let_def split: option.splits prod.splits)

lemma code_of_run_enter [simp]:
  "code_of (effectHeap (run_enter e s) e') = code_of (effectHeap s e')"
  by (simp add: run_enter_def Let_def enableTracking_def initDepMarkers_def
      del: effectHeap_cleanupEffect)

lemma code_of_run_exit [simp]:
  "code_of (effectHeap (run_exit e s) e') = code_of (effectHeap s e')"
  by (simp add: run_exit_def Let_def del: effectHeap_finalizeDepMarkers)

lemma stable_code: "stable (\<lambda>s. Q (\<lambda>e. code_of (effectHeap s e)))"
  by (simp add: stable_def del: effectHeap_cleanupEffect effectHeap_set_inactive)

lemma neutral_code_code_of:
  "neutral_code s \<longleftrightarrow>
     (\<forall>e. case code_of (effectHeap s e) of (g, sch, os, ar) \<Rightarrow>
        neutral g \<and> (case sch of None \<Rightarrow> True | Some g \<Rightarrow> neutral g) \<and>
        (case os of None \<Rightarrow> True | Some g \<Rightarrow> neutral g))"
  by (simp add: neutral_code_def code_of_def)

lemma stable_neutral_code: "stable neutral_code"
  unfolding neutral_code_code_of by (rule stable_code)

lemma stable_wf_ctx: "stable wf_ctx"
  by (simp add: stable_def wf_ctx_def)

lemma stable_conj: "stable P \<Longrightarrow> stable Q \<Longrightarrow> stable (\<lambda>s. P s \<and> Q s)"
  by (simp add: stable_def)

subsection \<open>The tracking context is restored\<close>

lemma ctx_primitives [simp]:
  "ctx (log_event ev s) = ctx s"
  "ctx (cleanupEffect e s) = ctx s"
  "ctx (set_inactive e s) = ctx s"
  "ctx (track tg k s) = ctx s"
  by (simp_all add: ctx_def)

lemma ctx_run_exit:
  assumes "ctx s2 = ctx (run_enter e s)" and "wf_ctx s"
  shows "ctx (run_exit e s2) = ctx s"
  using assms by (simp add: ctx_def wf_ctx_def)

lemma restoresD:
  "restores c \<Longrightarrow> neutral g \<Longrightarrow> neutral_code s \<Longrightarrow> wf_ctx s \<Longrightarrow> c g s = Some (r, s')
     \<Longrightarrow> ctx s' = ctx s"
  unfolding restores_def by blast

lemma stable_ok: "stable (\<lambda>s. neutral_code s \<and> wf_ctx s)"
  by (rule stable_conj[OF stable_neutral_code stable_wf_ctx])

lemma stableD:
  assumes "stable P" and "P s"
  shows "P (log_event ev s)"
    and "active (effectHeap s e) \<Longrightarrow> e \<notin> set (effectStack s) \<Longrightarrow> P (run_enter e s)"
    and "P (run_exit e s)"
    and "active (effectHeap s e) \<Longrightarrow> P (cleanupEffect e s)"
    and "P (set_inactive e s)"
    and "P (track tg k s)"
  using assms by (simp_all add: stable_def)

lemma ok_log: "neutral_code s \<and> wf_ctx s \<Longrightarrow> neutral_code (log_event ev s) \<and> wf_ctx (log_event ev s)"
  by (rule stableD(1)[OF stable_ok])

lemma ok_run_enter:
  "neutral_code s \<and> wf_ctx s \<Longrightarrow> active (effectHeap s e) \<Longrightarrow> e \<notin> set (effectStack s)
     \<Longrightarrow> neutral_code (run_enter e s) \<and> wf_ctx (run_enter e s)"
  by (rule stableD(2)[OF stable_ok])

lemma ok_cleanupEffect:
  "neutral_code s \<and> wf_ctx s \<Longrightarrow> active (effectHeap s e)
     \<Longrightarrow> neutral_code (cleanupEffect e s) \<and> wf_ctx (cleanupEffect e s)"
  by (rule stableD(4)[OF stable_ok])

lemma ok_track:
  "neutral_code s \<and> wf_ctx s \<Longrightarrow> neutral_code (track tg k s) \<and> wf_ctx (track tg k s)"
  by (rule stableD(6)[OF stable_ok])

lemma neutral_codeD:
  assumes "neutral_code s"
  shows "neutral (fn (effectHeap s e))"
    and "scheduler (effectHeap s e) = Some g \<Longrightarrow> neutral g"
    and "onStop (effectHeap s e) = Some g \<Longrightarrow> neutral g"
proof -
  from assms show "neutral (fn (effectHeap s e))" by (simp add: neutral_code_def)
next
  assume "scheduler (effectHeap s e) = Some g"
  with assms show "neutral g" by (auto simp: neutral_code_def split: option.splits dest: spec[of _ e])
next
  assume "onStop (effectHeap s e) = Some g"
  with assms show "neutral g" by (auto simp: neutral_code_def split: option.splits dest: spec[of _ e])
qed

lemma run_restores:
  assumes rc: "restores c" and pc: "preserves (\<lambda>s. neutral_code s \<and> wf_ctx s) c"
    and ok: "neutral_code s" "wf_ctx s" and run: "run c e s = Some (r, s')"
  shows "ctx s' = ctx s"
proof (cases "active (effectHeap s e)")
  case False
  with run have c: "c (fn (effectHeap s e)) (log_event (FnCalled e) s) = Some (r, s')"
    by (simp add: run_def)
  from ok ok_log[of s "FnCalled e"]
  have ok0: "neutral_code (log_event (FnCalled e) s)" "wf_ctx (log_event (FnCalled e) s)"
    by simp_all
  from neutral_codeD(1)[OF ok(1)] have "neutral (fn (effectHeap s e))" .
  from restoresD[OF rc this ok0 c] show ?thesis by simp
next
  case True
  show ?thesis
  proof (cases "e \<in> set (effectStack s)")
    case True
    with \<open>active (effectHeap s e)\<close> run show ?thesis by (simp add: run_def)
  next
    case False
    with True run obtain s1 where
      c: "c (fn (effectHeap s e)) (log_event (FnCalled e) (run_enter e s)) = Some (r, s1)"
      and s': "s' = run_exit e s1"
      by (auto simp: run_def split: option.splits)
    let ?s0 = "log_event (FnCalled e) (run_enter e s)"
    from ok True False have "neutral_code (run_enter e s) \<and> wf_ctx (run_enter e s)"
      by (simp add: ok_run_enter)
    from ok_log[OF this] have ok0: "neutral_code ?s0" "wf_ctx ?s0" by simp_all
    from neutral_codeD(1)[OF ok(1)] have "neutral (fn (effectHeap s e))" .
    from restoresD[OF rc this ok0 c] have "ctx s1 = ctx (run_enter e s)" by simp
    from ctx_run_exit[OF this ok(2)] s' show ?thesis by simp
  qed
qed

lemma stop_restores:
  assumes rc: "restores c" and ok: "neutral_code s" "wf_ctx s"
    and stop: "stop c e s = Some (r, s')"
  shows "ctx s' = ctx s"
proof (cases "active (effectHeap s e)")
  case False
  with stop show ?thesis by (simp add: stop_def)
next
  case True
  show ?thesis
  proof (cases "onStop (effectHeap s e)")
    case None
    with True stop show ?thesis by (auto simp: stop_def)
  next
    case (Some g)
    let ?s0 = "log_event (OnStopCalled e) (cleanupEffect e s)"
    from Some True stop obtain r1 s1 where
      c: "c g ?s0 = Some (r1, s1)" and s': "s' = set_inactive e s1 \<or> s' = s1"
      by (auto simp: stop_def split: option.splits completion.splits)
    from ok True have "neutral_code (cleanupEffect e s) \<and> wf_ctx (cleanupEffect e s)"
      by (simp add: ok_cleanupEffect)
    from ok_log[OF this] have ok0: "neutral_code ?s0" "wf_ctx ?s0" by simp_all
    from neutral_codeD(3)[OF ok(1) Some] have "neutral g" .
    from restoresD[OF rc this ok0 c] have "ctx s1 = ctx s" by simp
    with s' show ?thesis by auto
  qed
qed

lemma triggerEffects_restores:
  assumes rc: "restores c" and pc: "preserves (\<lambda>s. neutral_code s \<and> wf_ctx s) c"
  shows "neutral_code s \<Longrightarrow> wf_ctx s \<Longrightarrow> triggerEffects c es s = Some (r, s')
           \<Longrightarrow> ctx s' = ctx s"
proof (induction es arbitrary: s)
  case Nil
  then show ?case by simp
next
  case (Cons e es)
  show ?case
  proof (cases "activeEffect s \<noteq> Some e \<or> allowRecurse (effectHeap s e)")
    case False
    with Cons show ?thesis by simp
  next
    case True
    have lg: "\<And>ev. neutral_code (log_event ev s) \<and> wf_ctx (log_event ev s)"
      using Cons.prems(1,2) by (simp add: ok_log)
    show ?thesis
    proof (cases "scheduler (effectHeap s e)")
      case None
      with True Cons.prems(3) obtain r1 s1 where
        r: "run c e (log_event (RunCalled e) s) = Some (r1, s1)"
        and rest: "(\<exists>v. r1 = Normal v \<and> triggerEffects c es s1 = Some (r, s')) \<or> s' = s1"
        by (auto split: option.splits completion.splits)
      from run_restores[OF rc pc _ _ r] lg have c1: "ctx s1 = ctx s" by simp
      from run_preserves[OF stable_ok pc lg r] have "neutral_code s1 \<and> wf_ctx s1" .
      with rest Cons.IH c1 show ?thesis by auto
    next
      case (Some g)
      with True Cons.prems(3) obtain r1 s1 where
        r: "c g (log_event (SchedulerCalled e) s) = Some (r1, s1)"
        and rest: "(\<exists>v. r1 = Normal v \<and> triggerEffects c es s1 = Some (r, s')) \<or> s' = s1"
        by (auto split: option.splits completion.splits)
      from neutral_codeD(2)[OF Cons.prems(1) Some] have "neutral g" .
      from restoresD[OF rc this _ _ r] lg have c1: "ctx s1 = ctx s" by simp
      from preservesD[OF pc lg r] have "neutral_code s1 \<and> wf_ctx s1" .
      with rest Cons.IH c1 show ?thesis by auto
    qed
  qed
qed

lemma trigger_restores:
  assumes "restores c" and "preserves (\<lambda>s. neutral_code s \<and> wf_ctx s) c"
    and "neutral_code s" and "wf_ctx s" and "trigger c tn tg ty k nv s = Some (r, s')"
  shows "ctx s' = ctx s"
  using assms(3-5) triggerEffects_restores[OF assms(1,2)]
  by (auto simp: trigger_def split: sum.splits)

lemma exec_restores:
  assumes rc: "restores c" and pc: "preserves (\<lambda>s. neutral_code s \<and> wf_ctx s) c"
  shows "list_all (\<lambda>c. \<not> is_switch c) cs \<Longrightarrow> neutral_code s \<Longrightarrow> wf_ctx s
           \<Longrightarrow> exec c tn cs s = Some (r, s') \<Longrightarrow> ctx s' = ctx s"
proof (induction cs arbitrary: s)
  case Nil
  then show ?case by simp
next
  case (Cons cmd cs)
  from Cons.prems(1) have tl: "list_all (\<lambda>c. \<not> is_switch c) cs" and hd: "\<not> is_switch cmd"
    by simp_all
  have ok: "neutral_code s \<and> wf_ctx s" using Cons.prems by simp
  show ?case
  proof (cases cmd)
    case (Track tg k)
    from ok have "neutral_code (track tg k s) \<and> wf_ctx (track tg k s)"
      by (rule ok_track)
    with Cons.IH[OF tl, of "track tg k s"] Cons.prems(4) Track show ?thesis by simp
  next
    case (Trigger tg ty k nv)
    with Cons.prems(4) obtain r1 s1 where
      t: "trigger c tn tg ty k nv s = Some (r1, s1)"
      and rest: "(\<exists>v. r1 = Normal v \<and> exec c tn cs s1 = Some (r, s')) \<or> s' = s1"
      by (auto split: option.splits completion.splits)
    from trigger_restores[OF rc pc _ _ t] ok have c1: "ctx s1 = ctx s" by simp
    from trigger_preserves[OF stable_ok pc ok t] have "neutral_code s1 \<and> wf_ctx s1" .
    with rest Cons.IH[OF tl] c1 show ?thesis by auto
  next
    case (CallRunner e)
    with Cons.prems(4) obtain r1 s1 where
      t: "run c e s = Some (r1, s1)"
      and rest: "(\<exists>v. r1 = Normal v \<and> exec c tn cs s1 = Some (r, s')) \<or> s' = s1"
      by (auto split: option.splits completion.splits)
    from run_restores[OF rc pc _ _ t] ok have c1: "ctx s1 = ctx s" by simp
    from run_preserves[OF stable_ok pc ok t] have "neutral_code s1 \<and> wf_ctx s1" .
    with rest Cons.IH[OF tl] c1 show ?thesis by auto
  next
    case (CallStop e)
    with Cons.prems(4) obtain r1 s1 where
      t: "stop c e s = Some (r1, s1)"
      and rest: "(\<exists>v. r1 = Normal v \<and> exec c tn cs s1 = Some (r, s')) \<or> s' = s1"
      by (auto split: option.splits completion.splits)
    from stop_restores[OF rc _ _ t] ok have c1: "ctx s1 = ctx s" by simp
    from stop_preserves[OF stable_ok pc ok t] have "neutral_code s1 \<and> wf_ctx s1" .
    with rest Cons.IH[OF tl] c1 show ?thesis by auto
  next
    case PauseTracking
    with hd show ?thesis by simp
  next
    case EnableTracking
    with hd show ?thesis by simp
  next
    case ResetTracking
    with hd show ?thesis by simp
  next
    case (Throw x)
    with Cons.prems show ?thesis by simp
  qed
qed

lemma call_restores: "restores (call tn f)"
proof (induction f)
  case 0
  show ?case by (simp add: restores_def)
next
  case (Suc f)
  have pc: "preserves (\<lambda>s. neutral_code s \<and> wf_ctx s) (call tn f)"
    by (rule call_preserves[OF stable_ok])
  show ?case
    unfolding restores_def
  proof (intro allI impI)
    fix g s r s'
    assume n: "neutral g" and ok: "neutral_code s" "wf_ctx s"
      and c: "call tn (Suc f) g s = Some (r, s')"
    show "ctx s' = ctx s"
    proof (cases g)
      case (Fn body v)
      with c obtain r1 where "exec (call tn f) tn body s = Some (r1, s')"
        by (auto split: option.splits completion.splits)
      from exec_restores[OF Suc pc _ ok this] n Fn show ?thesis by simp
    next
      case (RunnerOf e)
      with c have "run (call tn f) e s = Some (r, s')" by simp
      from run_restores[OF Suc pc ok this] show ?thesis .
    qed
  qed
qed

subsection \<open>User code that only reads\<close>

lemma exec_reads:
  "list_all is_read cs \<Longrightarrow> exec c tn cs s = Some (Normal Undefined, do_reads cs s)"
proof (induction cs arbitrary: s)
  case Nil
  then show ?case by simp
next
  case (Cons cmd cs)
  then show ?case by (cases cmd) simp_all
qed

lemma call_reader:
  "list_all is_read body \<Longrightarrow> call tn (Suc f) (Fn body v) s = Some (Normal v, do_reads body s)"
  by (simp add: exec_reads)

lemma do_reads_fields [simp]:
  "nextEffect (do_reads cs s) = nextEffect s"
  "effectTrackDepth (do_reads cs s) = effectTrackDepth s"
  "trackOpBit (do_reads cs s) = trackOpBit s"
  "effectStack (do_reads cs s) = effectStack s"
  "activeEffect (do_reads cs s) = activeEffect s"
  "shouldTrack (do_reads cs s) = shouldTrack s"
  "trackStack (do_reads cs s) = trackStack s"
  "trace (do_reads cs s) = trace s"
  by (induction cs s rule: do_reads.induct; simp)+

lemma ctx_do_reads [simp]: "ctx (do_reads cs s) = ctx s"
  by (simp add: ctx_def)

lemma code_of_do_reads [simp]:
  "code_of (effectHeap (do_reads cs s) e) = code_of (effectHeap s e)"
  by (induction cs s rule: do_reads.induct) simp_all

subsection \<open>The flag \<open>active\<close> is written by \<open>stop\<close> only\<close>

lemma active_trackEffects [simp]:
  "active (effectHeap (trackEffects d e s) e') = active (effectHeap s e')"
  by (simp add: trackEffects_def Let_def split: prod.splits)

lemma active_track [simp]:
  "active (effectHeap (track tg k s) e') = active (effectHeap s e')"
  by (simp add: track_def Let_def split: option.splits prod.splits)

lemma active_do_reads [simp]:
  "active (effectHeap (do_reads cs s) e) = active (effectHeap s e)"
  by (induction cs s rule: do_reads.induct) simp_all

lemma active_run_enter [simp]:
  "active (effectHeap (run_enter e s) e') = active (effectHeap s e')"
  by (simp add: run_enter_def Let_def enableTracking_def initDepMarkers_def)

lemma active_run_exit [simp]:
  "active (effectHeap (run_exit e s) e') = active (effectHeap s e')"
  by (simp add: run_exit_def Let_def)

subsection \<open>Notification in a quiet state\<close>

lemma same_view_refl [simp]: "same_view s s"
  by (simp add: same_view_def)











subsection \<open>Tracking with the markers\<close>

lemma distinct_dep_add: "distinct es \<Longrightarrow> distinct (dep_add e es)"
  by (simp add: dep_add_def)

lemma distinct_dep_delete: "distinct es \<Longrightarrow> distinct (dep_delete e es)"
  by (simp add: dep_delete_def distinct_removeAll)

lemma word_and_or_self: "(x OR b) AND b = (b :: 32 word)"
  by (auto simp: bit_eq_iff bit_simps)

lemma tracking_trackEffects:
  assumes "tracking e t" and "d < nextDep t"
  shows "tracking e (trackEffects d e t)"
    and "newTracked (trackEffects d e t) (depHeap (trackEffects d e t) d)"
proof -
  from assms(1) have bit: "effectTrackDepth t \<le> maxMarkerBits" "trackOpBit t \<noteq> 0"
    by (simp_all add: tracking_def)
  from bookkeeping_trackEffects[OF _ assms(2), of e] assms(1)
  have bk: "bookkeeping (trackEffects d e t)" by (simp add: tracking_def)
  from assms(1) have sym: "\<And>d'. d' \<in> set (deps (effectHeap t e)) \<Longrightarrow> e \<in> set (members (depHeap t d'))"
    by (simp add: tracking_def bookkeeping_def symmetric_def)
  show "newTracked (trackEffects d e t) (depHeap (trackEffects d e t) d)"
    using bit by (simp add: trackEffects_def newTracked_def Let_def word_and_or_self)
  show "tracking e (trackEffects d e t)"
    unfolding tracking_def
  proof (intro conjI)
    show "bookkeeping (trackEffects d e t)" by (rule bk)
    show "distinct_members (trackEffects d e t)"
      using assms(1) by (simp add: tracking_def distinct_members_def trackEffects_def Let_def distinct_dep_add)
    show "\<forall>d'. wasTracked (trackEffects d e t) (depHeap (trackEffects d e t) d') \<longrightarrow>
          d' \<in> set (deps (effectHeap (trackEffects d e t) e))"
      using assms(1) bit by (simp add: tracking_def trackEffects_def Let_def wasTracked_def newTracked_def)
    show "\<forall>d'. newTracked (trackEffects d e t) (depHeap (trackEffects d e t) d') \<longrightarrow>
          d' \<in> set (deps (effectHeap (trackEffects d e t) e)) \<and>
          e \<in> set (members (depHeap (trackEffects d e t) d'))"
      using assms(1) bit sym
      by (auto simp: tracking_def trackEffects_def Let_def wasTracked_def newTracked_def)
  qed (use assms(1) in \<open>simp_all add: tracking_def\<close>)
qed

lemma map_of_snoc:
  "map_of (m @ [(k, d)]) k' =
     (case map_of m k' of Some x \<Rightarrow> Some x | None \<Rightarrow> if k' = k then Some d else None)"
  by (simp add: map_add_def split: option.splits)

lemma track_cases:
  assumes "activeEffect s = Some e" and "shouldTrack s"
  obtains (existing) m d where "targetMap s tg = Some m" and "map_of m k = Some d"
      and "track tg k s = trackEffects d e s"
    | (fresh) m where "targetMap s tg = Some m \<or> targetMap s tg = None \<and> m = []"
      and "map_of m k = None"
      and "track tg k s =
             trackEffects (nextDep s) e
               (s\<lparr>targetMap := (targetMap s)(tg \<mapsto> m @ [(k, nextDep s)]),
                  depHeap := (depHeap s)(nextDep s := createDep []),
                  nextDep := Suc (nextDep s)\<rparr>)"
proof (cases "targetMap s tg")
  case None
  with assms have "track tg k s =
             trackEffects (nextDep s) e
               (s\<lparr>targetMap := (targetMap s)(tg \<mapsto> [] @ [(k, nextDep s)]),
                  depHeap := (depHeap s)(nextDep s := createDep []),
                  nextDep := Suc (nextDep s)\<rparr>)"
    by (simp add: track_def)
  with None show ?thesis by (intro fresh[of "[]"]) simp_all
next
  case (Some m)
  show ?thesis
  proof (cases "map_of m k")
    case None
    with Some assms show ?thesis by (intro fresh[of m]) (simp_all add: track_def)
  next
    case (Some d)
    with \<open>targetMap s tg = Some m\<close> assms show ?thesis
      by (intro existing[of m d]) (simp_all add: track_def)
  qed
qed

lemma bookkeeping_alloc:
  assumes "bookkeeping s" and "targetMap s tg = Some m \<or> targetMap s tg = None \<and> m = []"
  shows "bookkeeping (s\<lparr>targetMap := (targetMap s)(tg \<mapsto> m @ [(k, nextDep s)]),
                        depHeap := (depHeap s)(nextDep s := createDep []),
                        nextDep := Suc (nextDep s)\<rparr>)"
proof -
  have "\<And>e. nextDep s \<notin> set (deps (effectHeap s e))"
    using assms(1) by (auto simp: bookkeeping_def allocated_def)
  then show ?thesis
    using assms unfolding bookkeeping_def symmetric_def allocated_def
    by (auto simp: createDep_def less_Suc_eq split: if_splits)
qed

lemma tracking_alloc:
  assumes "tracking e s" and "targetMap s tg = Some m \<or> targetMap s tg = None \<and> m = []"
  shows "tracking e (s\<lparr>targetMap := (targetMap s)(tg \<mapsto> m @ [(k, nextDep s)]),
                        depHeap := (depHeap s)(nextDep s := createDep []),
                        nextDep := Suc (nextDep s)\<rparr>)"
proof -
  from assms(1) have "bookkeeping s" by (simp add: tracking_def)
  from bookkeeping_alloc[OF this assms(2)] assms(1) show ?thesis
    by (simp add: tracking_def distinct_members_def createDep_def wasTracked_def newTracked_def)
qed





lemma shl1_nonzero: "shl1 i \<noteq> 0"
proof -
  have "nat (i mod 32) < 32" by simp
  then have "bit (push_bit (nat (i mod 32)) (1 :: 32 word)) (nat (i mod 32))"
    by (simp add: bit_simps)
  then show ?thesis unfolding shl1_def by (metis bit_0_eq bot_apply bot_bool_def)
qed


lemma tracking_run_enter:
  assumes "bookkeeping s" and "distinct_members s" and "unmarked s"
    and "effectTrackDepth s + 1 \<le> maxMarkerBits"
  shows "tracking e (log_event ev (run_enter e s))"
proof -
  have bk: "bookkeeping (log_event ev (run_enter e s))"
    using assms(1) by (simp add: bookkeeping_ctx_update bookkeeping_run_enter)
  have "distinct_members (run_enter e s)"
    using assms(2) by (simp add: distinct_members_def run_enter_def Let_def enableTracking_def
        depHeap_initDepMarkers depHeap_cleanupEffect distinct_dep_delete)
  then have dm: "distinct_members (log_event ev (run_enter e s))"
    by (simp add: distinct_members_def)
  have dh: "\<And>d. depHeap (run_enter e s) d =
      (if d \<in> set (deps (effectHeap s e))
       then (depHeap s d)\<lparr>w_marks := w_marks (depHeap s d) OR shl1 (effectTrackDepth s + 1)\<rparr>
       else depHeap s d)"
    using assms(4) by (simp add: run_enter_def Let_def enableTracking_def depHeap_initDepMarkers)
  have eh: "effectHeap (run_enter e s) = effectHeap s"
    using assms(4) by (simp add: run_enter_def Let_def enableTracking_def initDepMarkers_def)
  show ?thesis
    unfolding tracking_def
    using bk dm assms(3,4) shl1_nonzero
    by (simp add: dh eh wasTracked_def newTracked_def unmarked_def)
qed


subsection \<open>A run subscribes the effect to what it reads\<close>




subsection \<open>Which sets a write collects\<close>

lemma length_deps_symbol:
  "(KSymbol y, d) \<in> set depsMap \<Longrightarrow> length_deps tn depsMap nv = Inl TypeError"
  by (induction depsMap) (auto simp: js_ge_def split: key.splits sum.splits)




subsection \<open>Counting notifications\<close>


lemma filter_notify_events:
  "filter (\<lambda>ev. ev = RunCalled e \<or> ev = SchedulerCalled e) (notify_events s e') =
     (if e' = e \<and> \<not> (activeEffect s = Some e \<and> \<not> allowRecurse (effectHeap s e))
      then (case scheduler (effectHeap s e) of None \<Rightarrow> [RunCalled e] | Some g \<Rightarrow> [SchedulerCalled e])
      else [])"
  by (auto simp: notify_events_def split: option.splits)


subsection \<open>The round trip from a settled state\<close>



subsection \<open>Reads are attributed to the active effect\<close>

lemma effectHeap_trackEffects_other:
  "e' \<noteq> e \<Longrightarrow> effectHeap (trackEffects d e s) e' = effectHeap s e'"
  by (simp add: trackEffects_def Let_def split: prod.splits)

lemma effectHeap_track_other:
  "activeEffect s \<noteq> Some e' \<Longrightarrow> effectHeap (track tg k s) e' = effectHeap s e'"
  by (auto simp: track_def Let_def effectHeap_trackEffects_other split: option.splits prod.splits)

lemma effectHeap_do_reads_other:
  "activeEffect s \<noteq> Some e' \<Longrightarrow> effectHeap (do_reads cs s) e' = effectHeap s e'"
  by (induction cs s rule: do_reads.induct) (simp_all add: effectHeap_track_other)

lemma effectHeap_run_enter_other:
  "e' \<noteq> e \<Longrightarrow> effectHeap (run_enter e s) e' = effectHeap s e'"
  by (simp add: run_enter_def Let_def enableTracking_def initDepMarkers_def)

lemma effectHeap_run_exit_other:
  "e' \<noteq> e \<Longrightarrow> effectHeap (run_exit e s) e' = effectHeap s e'"
  by (simp add: run_exit_def Let_def)

lemma fn_preserved:
  assumes "call tn f g s = Some (r, s')"
  shows "fn (effectHeap s' e) = fn (effectHeap s e)"
proof -
  have "stable (\<lambda>t. fst (code_of (effectHeap t e)) = fn (effectHeap s e))"
    by (rule stable_code[of "\<lambda>F. fst (F e) = fn (effectHeap s e)"])
  from preservesD[OF call_preserves[OF this] _ assms] show ?thesis
    by (simp add: code_of_def)
qed

lemma run_fn_preserved:
  assumes "run (call tn f) e0 s = Some (r, s')"
  shows "fn (effectHeap s' e) = fn (effectHeap s e)"
proof -
  have st: "stable (\<lambda>t. fst (code_of (effectHeap t e)) = fn (effectHeap s e))"
    by (rule stable_code[of "\<lambda>F. fst (F e) = fn (effectHeap s e)"])
  from run_preserves[OF st call_preserves[OF st] _ assms] show ?thesis
    by (simp add: code_of_def)
qed

subsection \<open>C10: effect unwraps a runner\<close>

text \<open>
  C10: when the function passed to \<open>effect\<close> is the runner of an effect \<open>r\<close>, the effect
  that is created has the function of \<open>r\<close> as its function, not the runner, and still has
  it when \<open>effect\<close> returns, whatever the options are. So running the new effect does
  not go through \<open>run\<close> of \<open>r\<close>: if the function of \<open>r\<close> only reads, the first run
  that \<open>effect\<close> makes calls that function once as the function of the new effect, and
  leaves the effect \<open>r\<close> and its list \<open>deps\<close> as they are.
\<close>

theorem effect_unwraps_runner:
  "fn (effectHeap (effect_create (RunnerOf r) options s) (nextEffect s)) = fn (effectHeap s r) \<and>
   (\<forall>res s'. effect (call tn f) (RunnerOf r) options s = Some (res, s')
      \<longrightarrow> fn (effectHeap s' (nextEffect s)) = fn (effectHeap s r)) \<and>
   (r \<noteq> nextEffect s \<and> nextEffect s \<notin> set (effectStack s) \<and>
    fn (effectHeap s r) = Fn body v \<and> list_all is_read body \<and>
    (case options of None \<Rightarrow> True | Some opts \<Rightarrow> \<not> opt_lazy opts)
      \<longrightarrow> (\<exists>s'. effect (call tn (Suc f)) (RunnerOf r) options s = Some (Inr (nextEffect s), s') \<and>
             trace s' = trace s @ [FnCalled (nextEffect s)] \<and>
             effectHeap s' r = effectHeap s r))"
proof (intro conjI allI impI)
  let ?n = "nextEffect s"
  let ?s1 = "effect_create (RunnerOf r) options s"
  show c: "fn (effectHeap ?s1 ?n) = fn (effectHeap s r)"
    by (simp add: effect_create_def Let_def new_ReactiveEffect_def extend_def split: option.splits)
  {
    fix res s'
    assume "effect (call tn f) (RunnerOf r) options s = Some (res, s')"
    then have "s' = ?s1 \<or> (\<exists>x. run (call tn f) ?n ?s1 = Some (x, s'))"
      by (auto simp: effect_def Let_def split: if_splits option.splits completion.splits)
    with c run_fn_preserved[of tn f ?n ?s1 _ s' ?n]
    show "fn (effectHeap s' ?n) = fn (effectHeap s r)" by auto
  }
  assume a: "r \<noteq> ?n \<and> ?n \<notin> set (effectStack s) \<and> fn (effectHeap s r) = Fn body v \<and>
    list_all is_read body \<and> (case options of None \<Rightarrow> True | Some opts \<Rightarrow> \<not> opt_lazy opts)"
  have act: "active (effectHeap ?s1 ?n)" "?n \<notin> set (effectStack ?s1)"
    using a by (simp_all add: effect_create_def Let_def new_ReactiveEffect_def extend_def
        split: option.splits)
  let ?t0 = "log_event (FnCalled ?n) (run_enter ?n ?s1)"
  let ?s2 = "run_exit ?n (do_reads body ?t0)"
  from act c a have r: "run (call tn (Suc f)) ?n ?s1 = Some (Normal v, ?s2)"
    by (simp add: run_def exec_reads)
  with a have e: "effect (call tn (Suc f)) (RunnerOf r) options s = Some (Inr ?n, ?s2)"
    by (simp add: effect_def Let_def)
  have tr: "trace ?s2 = trace s @ [FnCalled ?n]"
    by (simp add: effect_create_def Let_def)
  have "activeEffect ?t0 \<noteq> Some r" using a by simp
  from effectHeap_do_reads_other[OF this, of body] a
  have "effectHeap ?s2 r = effectHeap ?s1 r"
    by (simp add: effectHeap_run_exit_other effectHeap_run_enter_other)
  with a have "effectHeap ?s2 r = effectHeap s r"
    by (simp add: effect_create_def Let_def)
  with e tr show "\<exists>s'. effect (call tn (Suc f)) (RunnerOf r) options s = Some (Inr ?n, s') \<and>
             trace s' = trace s @ [FnCalled ?n] \<and> effectHeap s' r = effectHeap s r"
    by blast
qed

theorem effect_unwraps_runner_witness:
  "fn (effectHeap runner_state 0) = Fn [Track (OtherT 0) (KString ''a'')] (Val 1) \<and>
   nextEffect runner_state = 1 \<and>
   fn (effectHeap (effect_create (RunnerOf 0) None runner_state) 1)
     = Fn [Track (OtherT 0) (KString ''a'')] (Val 1) \<and>
   (\<exists>s'. effect (call (\<lambda>x. None) (Suc 0)) (RunnerOf 0) None runner_state = Some (Inr 1, s') \<and>
      trace s' = [FnCalled 1] \<and> effectHeap s' 0 = effectHeap runner_state 0 \<and>
      fn (effectHeap s' 1) = Fn [Track (OtherT 0) (KString ''a'')] (Val 1))"
proof -
  have h: "fn (effectHeap runner_state 0) = Fn [Track (OtherT 0) (KString ''a'')] (Val 1)"
    "nextEffect runner_state = 1" "effectStack runner_state = []" "trace runner_state = []"
    by (simp_all add: runner_state_def reading_state_def init_state_def new_ReactiveEffect_def)
  from effect_unwraps_runner[where r = 0 and options = None and s = runner_state
      and tn = "\<lambda>x. None" and f = 0 and body = "[Track (OtherT 0) (KString ''a'')]"
      and v = "Val 1"] h
  obtain s' where
    e: "effect (call (\<lambda>x. None) (Suc 0)) (RunnerOf 0) None runner_state = Some (Inr 1, s')"
      "trace s' = [FnCalled 1]" "effectHeap s' 0 = effectHeap runner_state 0"
    and c: "fn (effectHeap (effect_create (RunnerOf 0) None runner_state) 1)
              = Fn [Track (OtherT 0) (KString ''a'')] (Val 1)"
    by (auto simp del: call.simps)
  from effect_unwraps_runner[where r = 0 and options = None and s = runner_state
      and tn = "\<lambda>x. None" and f = "Suc 0"] e(1) h
  have "fn (effectHeap s' 1) = Fn [Track (OtherT 0) (KString ''a'')] (Val 1)"
    by (auto simp del: call.simps)
  with e c h show ?thesis by blast
qed

subsection \<open>Invariants that speak about the notifications\<close>

lemma stable_on_snapshot:
  "stable_on P Q \<Longrightarrow> P s \<Longrightarrow> trigger_snapshot tn tg ty k nv s = Inr es \<Longrightarrow> list_all Q es"
  by (simp add: stable_on_def)

lemma run_preserves_on:
  assumes "stable_on P Q" and "preserves P c" and "P s" and "run c e s = Some (r, s')"
  shows "P s'"
proof (cases "active (effectHeap s e)")
  case False
  with assms(4) have "c (fn (effectHeap s e)) (log_event (FnCalled e) s) = Some (r, s')"
    by (simp add: run_def)
  moreover from assms(1,3) have "P (log_event (FnCalled e) s)" by (simp add: stable_on_def)
  ultimately show ?thesis using assms(2) by (blast dest: preservesD)
next
  case True
  show ?thesis
  proof (cases "e \<in> set (effectStack s)")
    case True
    with \<open>active (effectHeap s e)\<close> assms(3,4) show ?thesis by (simp add: run_def)
  next
    case False
    with \<open>active (effectHeap s e)\<close> assms(4) obtain s1 where
      c: "c (fn (effectHeap s e)) (log_event (FnCalled e) (run_enter e s)) = Some (r, s1)"
      and s': "s' = run_exit e s1"
      by (auto simp: run_def split: option.splits)
    from assms(1,3) \<open>active (effectHeap s e)\<close> False have "P (run_enter e s)"
      by (simp add: stable_on_def)
    with assms(1) have "P (log_event (FnCalled e) (run_enter e s))" by (simp add: stable_on_def)
    with assms(2) c have "P s1" by (blast dest: preservesD)
    with assms(1) s' show ?thesis by (simp add: stable_on_def)
  qed
qed

lemma stop_preserves_on:
  assumes "stable_on P Q" and "preserves P c" and "P s" and "stop c e s = Some (r, s')"
  shows "P s'"
proof (cases "active (effectHeap s e)")
  case False
  with assms(3,4) show ?thesis by (simp add: stop_def)
next
  case True
  with assms(1,3) have cl: "P (cleanupEffect e s)" by (simp add: stable_on_def)
  show ?thesis
  proof (cases "onStop (effectHeap s e)")
    case None
    with True assms(4) have "s' = set_inactive e (cleanupEffect e s)" by (simp add: stop_def)
    with cl assms(1) show ?thesis by (simp add: stable_on_def)
  next
    case (Some g)
    with True assms(4) obtain r1 s1 where
      c: "c g (log_event (OnStopCalled e) (cleanupEffect e s)) = Some (r1, s1)"
      and s': "s' = set_inactive e s1 \<or> s' = s1"
      by (auto simp: stop_def split: option.splits completion.splits)
    from cl assms(1) have "P (log_event (OnStopCalled e) (cleanupEffect e s))"
      by (simp add: stable_on_def)
    with assms(2) c have "P s1" by (blast dest: preservesD)
    with assms(1) s' show ?thesis by (auto simp: stable_on_def)
  qed
qed

lemma triggerEffects_preserves_on:
  assumes "stable_on P Q" and "preserves P c"
  shows "P s \<Longrightarrow> list_all Q es \<Longrightarrow> triggerEffects c es s = Some (r, s') \<Longrightarrow> P s'"
proof (induction es arbitrary: s)
  case Nil
  then show ?case by simp
next
  case (Cons e es)
  from Cons.prems(2) have Q: "Q e" and Qs: "list_all Q es" by simp_all
  show ?case
  proof (cases "activeEffect s \<noteq> Some e \<or> allowRecurse (effectHeap s e)")
    case False
    with Cons.prems(1,3) Qs show ?thesis by (auto intro: Cons.IH)
  next
    case True
    from assms(1) Cons.prems(1) Q have lg:
      "P (log_event (RunCalled e) s)" "P (log_event (SchedulerCalled e) s)"
      by (simp_all add: stable_on_def)
    show ?thesis
    proof (cases "scheduler (effectHeap s e)")
      case None
      with True Cons.prems(3) obtain r1 s1 where
        r: "run c e (log_event (RunCalled e) s) = Some (r1, s1)"
        and rest: "(\<exists>v. r1 = Normal v \<and> triggerEffects c es s1 = Some (r, s')) \<or> s' = s1"
        by (auto split: option.splits completion.splits)
      from run_preserves_on[OF assms lg(1) r] have "P s1" .
      with rest Qs show ?thesis by (auto intro: Cons.IH)
    next
      case (Some g)
      with True Cons.prems(3) obtain r1 s1 where
        r: "c g (log_event (SchedulerCalled e) s) = Some (r1, s1)"
        and rest: "(\<exists>v. r1 = Normal v \<and> triggerEffects c es s1 = Some (r, s')) \<or> s' = s1"
        by (auto split: option.splits completion.splits)
      from preservesD[OF assms(2) lg(2) r] have "P s1" .
      with rest Qs show ?thesis by (auto intro: Cons.IH)
    qed
  qed
qed

lemma trigger_preserves_on:
  assumes "stable_on P Q" and "preserves P c" and "P s"
    and "trigger c tn tg ty k nv s = Some (r, s')"
  shows "P s'"
proof (cases "trigger_snapshot tn tg ty k nv s")
  case (Inl x)
  with assms(3,4) show ?thesis by (simp add: trigger_def)
next
  case (Inr es)
  with assms(1,3) have "list_all Q es" by (rule stable_on_snapshot)
  moreover from Inr assms(4) have "triggerEffects c es s = Some (r, s')"
    by (simp add: trigger_def)
  ultimately show ?thesis using triggerEffects_preserves_on[OF assms(1,2) assms(3)] by blast
qed

lemma exec_preserves_on:
  assumes "stable_on P Q" and "preserves P c"
  shows "P s \<Longrightarrow> exec c tn cs s = Some (r, s') \<Longrightarrow> P s'"
proof (induction cs arbitrary: s)
  case Nil
  then show ?case by simp
next
  case (Cons cmd cs)
  from assms(1) Cons.prems(1) have prim:
    "\<And>tg k. P (track tg k s)" "P (pauseTracking s)" "P (enableTracking s)" "P (resetTracking s)"
    by (simp_all add: stable_on_def)
  show ?case
  proof (cases cmd)
    case (Track tg k)
    with Cons.prems prim show ?thesis by (auto intro: Cons.IH)
  next
    case (Trigger tg ty k nv)
    with Cons.prems(2) obtain r1 s1 where
      t: "trigger c tn tg ty k nv s = Some (r1, s1)"
      and rest: "(\<exists>v. r1 = Normal v \<and> exec c tn cs s1 = Some (r, s')) \<or> s' = s1"
      by (auto split: option.splits completion.splits)
    from trigger_preserves_on[OF assms Cons.prems(1) t] have "P s1" .
    with rest Cons.IH show ?thesis by auto
  next
    case (CallRunner e)
    with Cons.prems(2) obtain r1 s1 where
      t: "run c e s = Some (r1, s1)"
      and rest: "(\<exists>v. r1 = Normal v \<and> exec c tn cs s1 = Some (r, s')) \<or> s' = s1"
      by (auto split: option.splits completion.splits)
    from run_preserves_on[OF assms Cons.prems(1) t] have "P s1" .
    with rest Cons.IH show ?thesis by auto
  next
    case (CallStop e)
    with Cons.prems(2) obtain r1 s1 where
      t: "stop c e s = Some (r1, s1)"
      and rest: "(\<exists>v. r1 = Normal v \<and> exec c tn cs s1 = Some (r, s')) \<or> s' = s1"
      by (auto split: option.splits completion.splits)
    from stop_preserves_on[OF assms Cons.prems(1) t] have "P s1" .
    with rest Cons.IH show ?thesis by auto
  next
    case PauseTracking
    with Cons.prems prim show ?thesis by (auto intro: Cons.IH)
  next
    case EnableTracking
    with Cons.prems prim show ?thesis by (auto intro: Cons.IH)
  next
    case ResetTracking
    with Cons.prems prim show ?thesis by (auto intro: Cons.IH)
  next
    case (Throw x)
    with Cons.prems show ?thesis by simp
  qed
qed

lemma call_preserves_on:
  assumes "stable_on P Q"
  shows "preserves P (call tn f)"
proof (induction f)
  case 0
  show ?case by (simp add: preserves_def)
next
  case (Suc f)
  show ?case
    unfolding preserves_def
  proof (intro allI impI)
    fix g s r s'
    assume P: "P s" and c: "call tn (Suc f) g s = Some (r, s')"
    show "P s'"
    proof (cases g)
      case (Fn body v)
      with c obtain r1 where "exec (call tn f) tn body s = Some (r1, s')"
        by (auto split: option.splits completion.splits)
      from exec_preserves_on[OF assms Suc P this] show ?thesis .
    next
      case (RunnerOf e)
      with c have "run (call tn f) e s = Some (r, s')" by simp
      from run_preserves_on[OF assms Suc P this] show ?thesis .
    qed
  qed
qed

subsection \<open>A stopped effect\<close>

lemma members_trackEffects:
  "set (members (depHeap (trackEffects d a s) d')) \<subseteq> insert a (set (members (depHeap s d')))"
  by (auto simp: trackEffects_def Let_def map_dep_def map_effect_def split: if_splits prod.splits)

lemma members_track:
  assumes "activeEffect s \<noteq> Some e" and "e \<in> set (members (depHeap (track tg k s) d))"
  shows "e \<in> set (members (depHeap s d))"
proof (cases "activeEffect s")
  case None
  with assms(2) show ?thesis by (simp add: track_def)
next
  case (Some a)
  with assms(1) have ne: "a \<noteq> e" by simp
  show ?thesis
  proof (cases "shouldTrack s")
    case False
    with Some assms(2) show ?thesis by (simp add: track_def)
  next
    case True
    show ?thesis
    proof (rule track_cases[OF Some True, of tg k])
      fix m d0
      assume "track tg k s = trackEffects d0 a s"
      with assms(2) ne show ?thesis using members_trackEffects[of d0 a s d] by auto
    next
      fix m
      assume "track tg k s =
             trackEffects (nextDep s) a
               (s\<lparr>targetMap := (targetMap s)(tg \<mapsto> m @ [(k, nextDep s)]),
                  depHeap := (depHeap s)(nextDep s := createDep []),
                  nextDep := Suc (nextDep s)\<rparr>)"
      with assms(2) ne show ?thesis
        using members_trackEffects[of "nextDep s" a
            "s\<lparr>targetMap := (targetMap s)(tg \<mapsto> m @ [(k, nextDep s)]),
               depHeap := (depHeap s)(nextDep s := createDep []),
               nextDep := Suc (nextDep s)\<rparr>" d]
        by (auto simp: createDep_def split: if_splits)
    qed
  qed
qed

lemma unsubscribed_log [simp]: "unsubscribed e (log_event ev s) = unsubscribed e s"
  by (simp add: unsubscribed_def)

lemma unsubscribed_track: "unsubscribed e s \<Longrightarrow> unsubscribed e (track tg k s)"
  unfolding unsubscribed_def
  by (auto simp: effectHeap_track_other dest: members_track)

lemma unsubscribed_do_reads: "unsubscribed e s \<Longrightarrow> unsubscribed e (do_reads cs s)"
  by (induction cs s rule: do_reads.induct) (simp_all add: unsubscribed_track)

lemma unsubscribed_cleanupEffect: "unsubscribed e s \<Longrightarrow> unsubscribed e (cleanupEffect e' s)"
  unfolding unsubscribed_def
  by (auto simp: depHeap_cleanupEffect split: if_splits)

lemma unsubscribed_set_inactive: "unsubscribed e s \<Longrightarrow> unsubscribed e (set_inactive e' s)"
  unfolding unsubscribed_def by auto

lemma unsubscribed_switch:
  "unsubscribed e s \<Longrightarrow> unsubscribed e (pauseTracking s)"
  "unsubscribed e s \<Longrightarrow> unsubscribed e (enableTracking s)"
  "unsubscribed e s \<Longrightarrow> unsubscribed e (resetTracking s)"
  unfolding unsubscribed_def
  by (auto simp: pauseTracking_def enableTracking_def resetTracking_def split: list.splits)

lemma unsubscribed_run_enter:
  assumes "unsubscribed e s" and "e' \<noteq> e"
  shows "unsubscribed e (run_enter e' s)"
proof -
  have m: "set (members (depHeap (run_enter e' s) d)) \<subseteq> set (members (depHeap s d))" for d
    by (auto simp: run_enter_def Let_def enableTracking_def depHeap_initDepMarkers
        depHeap_cleanupEffect split: if_splits)
  from assms m show ?thesis
    unfolding unsubscribed_def
    by (auto simp: effectHeap_run_enter_other)
qed

lemma unsubscribed_run_exit:
  assumes "unsubscribed e s"
  shows "unsubscribed e (run_exit e' s)"
proof -
  have m: "set (members (depHeap (run_exit e' s) d)) \<subseteq> set (members (depHeap s d))" for d
    by (auto simp: run_exit_def Let_def resetTracking_def depHeap_finalizeDepMarkers
        members_finalize_dep split: if_splits list.splits)
  have d: "deps (effectHeap (run_exit e' s) e) = []"
    using assms
    by (cases "e' = e")
       (auto simp: run_exit_def Let_def resetTracking_def unsubscribed_def split: list.splits)
  have st: "e \<notin> set (tl (effectStack s))"
    using assms by (cases "effectStack s") (auto simp: unsubscribed_def)
  then have a: "(case tl (effectStack s) of [] \<Rightarrow> None | x # xs \<Rightarrow> Some x) \<noteq> Some e"
    by (auto split: list.splits)
  from assms m d st a show ?thesis
    unfolding unsubscribed_def by auto
qed

lemma silent_log:
  "silent e n (log_event ev s) \<longleftrightarrow>
     silent e n s \<and> (n \<le> length (trace s) \<longrightarrow> ev \<noteq> RunCalled e \<and> ev \<noteq> SchedulerCalled e)"
  by (cases "n \<le> length (trace s)") (auto simp: silent_def log_event_def)

lemma silent_primitives [simp]:
  "silent e n (run_enter e' s) = silent e n s"
  "silent e n (run_exit e' s) = silent e n s"
  "silent e n (cleanupEffect e' s) = silent e n s"
  "silent e n (set_inactive e' s) = silent e n s"
  "silent e n (track tg k s) = silent e n s"
  "silent e n (pauseTracking s) = silent e n s"
  "silent e n (enableTracking s) = silent e n s"
  "silent e n (resetTracking s) = silent e n s"
  by (simp_all add: silent_def pauseTracking_def enableTracking_def resetTracking_def
      split: list.splits)

lemma snapshot_unsubscribed:
  assumes "unsubscribed e s" and "trigger_snapshot tn tg ty k nv s = Inr es"
  shows "e \<notin> set es"
proof -
  from assms(2) obtain ds where "es = trigger_effects s ds \<or> es = []"
    by (auto simp: trigger_snapshot_def split: option.splits sum.splits)
  moreover have "e \<notin> set (dep_members s od)" for od
    using assms(1) by (cases od) (auto simp: dep_members_def unsubscribed_def)
  ultimately show ?thesis by (auto simp: set_trigger_effects)
qed

lemma stable_stopped: "stable_on (stopped e n) (\<lambda>e'. e' \<noteq> e)"
  unfolding stable_on_def
proof (intro allI impI)
  fix s :: state
  assume P: "stopped e n s"
  then have u: "unsubscribed e s" and i: "\<not> active (effectHeap s e)" and q: "silent e n s"
    by (simp_all add: stopped_def)
  have 1: "\<forall>e'. stopped e n (log_event (FnCalled e') s) \<and> stopped e n (log_event (OnStopCalled e') s)"
    using P by (simp add: stopped_def silent_log)
  have 2: "\<forall>e'. e' \<noteq> e \<longrightarrow> stopped e n (log_event (RunCalled e') s) \<and>
                 stopped e n (log_event (SchedulerCalled e') s)"
    using P by (simp add: stopped_def silent_log)
  have 3: "\<forall>tn tg ty k nv es. trigger_snapshot tn tg ty k nv s = Inr es \<longrightarrow> list_all (\<lambda>e'. e' \<noteq> e) es"
    using snapshot_unsubscribed[OF u] by (auto simp: list_all_iff)
  have 4: "\<forall>e'. active (effectHeap s e') \<and> e' \<notin> set (effectStack s) \<longrightarrow> stopped e n (run_enter e' s)"
    using P i by (auto simp: stopped_def intro: unsubscribed_run_enter)
  have 5: "\<forall>e'. stopped e n (run_exit e' s)"
    using P by (simp add: stopped_def unsubscribed_run_exit)
  have 6: "\<forall>e'. active (effectHeap s e') \<longrightarrow> stopped e n (cleanupEffect e' s)"
    using P by (auto simp: stopped_def unsubscribed_cleanupEffect)
  have 7: "\<forall>e'. stopped e n (set_inactive e' s)"
    using P by (auto simp: stopped_def unsubscribed_set_inactive)
  have 8: "\<forall>tg k. stopped e n (track tg k s)"
    using P by (simp add: stopped_def unsubscribed_track)
  have 9: "stopped e n (pauseTracking s)" "stopped e n (enableTracking s)"
    "stopped e n (resetTracking s)"
    using P by (simp_all add: stopped_def unsubscribed_switch)
  show
    "(\<forall>e'. stopped e n (log_event (FnCalled e') s) \<and> stopped e n (log_event (OnStopCalled e') s)) \<and>
     (\<forall>e'. e' \<noteq> e \<longrightarrow> stopped e n (log_event (RunCalled e') s) \<and>
            stopped e n (log_event (SchedulerCalled e') s)) \<and>
     (\<forall>tn tg ty k nv es. trigger_snapshot tn tg ty k nv s = Inr es \<longrightarrow> list_all (\<lambda>e'. e' \<noteq> e) es) \<and>
     (\<forall>e'. active (effectHeap s e') \<and> e' \<notin> set (effectStack s) \<longrightarrow> stopped e n (run_enter e' s)) \<and>
     (\<forall>e'. stopped e n (run_exit e' s)) \<and>
     (\<forall>e'. active (effectHeap s e') \<longrightarrow> stopped e n (cleanupEffect e' s)) \<and>
     (\<forall>e'. stopped e n (set_inactive e' s)) \<and>
     (\<forall>tg k. stopped e n (track tg k s)) \<and>
     stopped e n (pauseTracking s) \<and> stopped e n (enableTracking s) \<and>
     stopped e n (resetTracking s)"
    by (intro conjI) (rule 1 2 3 4 5 6 7 8 9)+
qed

lemma unsubscribed_after_cleanup:
  assumes "bookkeeping s" and "e \<notin> set (effectStack s)" and "activeEffect s \<noteq> Some e"
  shows "unsubscribed e (cleanupEffect e s)"
  using assms unfolding unsubscribed_def bookkeeping_def symmetric_def
  by (auto simp: depHeap_cleanupEffect)

lemma do_reads_inert: "activeEffect s = None \<Longrightarrow> do_reads cs s = s"
  by (induction cs s rule: do_reads.induct) (simp_all add: track_def)

lemma stop_settles:
  assumes "bookkeeping s" and "e \<notin> set (effectStack s)" and "activeEffect s \<noteq> Some e"
    and "active (effectHeap s e)"
    and "case onStop (effectHeap s e) of None \<Rightarrow> True | Some g \<Rightarrow> reader g"
  obtains s1 where "stop (call tn (Suc f)) e s = Some (Normal Undefined, s1)"
    and "\<not> active (effectHeap s1 e)" and "unsubscribed e s1"
    and "trace s1 = trace s @ (case onStop (effectHeap s e) of None \<Rightarrow> [] | Some g \<Rightarrow> [OnStopCalled e])"
    and "code_of (effectHeap s1 e) = code_of (effectHeap s e)"
proof (cases "onStop (effectHeap s e)")
  case None
  let ?s1 = "set_inactive e (cleanupEffect e s)"
  from unsubscribed_after_cleanup[OF assms(1-3)] have "unsubscribed e ?s1"
    by (rule unsubscribed_set_inactive)
  moreover from None assms(4) have "stop (call tn (Suc f)) e s = Some (Normal Undefined, ?s1)"
    by (simp add: stop_def)
  moreover have "\<not> active (effectHeap ?s1 e)" by simp
  moreover from None have
    "trace ?s1 = trace s @ (case onStop (effectHeap s e) of None \<Rightarrow> [] | Some g \<Rightarrow> [OnStopCalled e])"
    by simp
  moreover have "code_of (effectHeap ?s1 e) = code_of (effectHeap s e)"
    by (simp del: effectHeap_set_inactive effectHeap_cleanupEffect)
  ultimately show ?thesis by (blast intro: that)
next
  case (Some g)
  with assms(5) obtain body v where g: "g = Fn body v" and rd: "list_all is_read body"
    by (cases g) simp_all
  let ?s0 = "log_event (OnStopCalled e) (cleanupEffect e s)"
  let ?s1 = "set_inactive e (do_reads body ?s0)"
  from unsubscribed_after_cleanup[OF assms(1-3)] have "unsubscribed e ?s0" by simp
  then have "unsubscribed e ?s1"
    by (intro unsubscribed_set_inactive unsubscribed_do_reads)
  moreover from Some assms(4) g have "stop (call tn (Suc f)) e s = Some (Normal Undefined, ?s1)"
    by (simp add: stop_def exec_reads[OF rd] del: exec.simps)
  moreover have "\<not> active (effectHeap ?s1 e)" by simp
  moreover from Some have
    "trace ?s1 = trace s @ (case onStop (effectHeap s e) of None \<Rightarrow> [] | Some g \<Rightarrow> [OnStopCalled e])"
    by (simp add: log_event_def)
  moreover have "code_of (effectHeap ?s1 e) = code_of (effectHeap s e)"
    by (simp del: effectHeap_set_inactive effectHeap_cleanupEffect)
  ultimately show ?thesis by (blast intro: that)
qed

lemma stopped_forever:
  assumes "stopped e n s" and "exec (call tn f) tn cmds s = Some (r, s')"
  shows "stopped e n s'"
  using exec_preserves_on[OF stable_stopped call_preserves_on[OF stable_stopped] assms] .

lemma exec_code_preserved:
  assumes "exec (call tn f) tn cmds s = Some (r, s')"
  shows "code_of (effectHeap s' e) = code_of (effectHeap s e)"
proof -
  have st: "stable (\<lambda>t. code_of (effectHeap t e) = code_of (effectHeap s e))"
    by (rule stable_code[of "\<lambda>F. F e = code_of (effectHeap s e)"])
  from exec_preserves[OF st call_preserves[OF st] _ assms] show ?thesis by simp
qed

subsection \<open>Stopping an effect that is not running\<close>

text \<open>
  An effect \<open>e\<close> that is not running when it is stopped, with an \<open>onStop\<close> callback, if
  it has one, that only reads. With consistent bookkeeping, \<open>stop\<close> of the active effect
  \<open>e\<close> returns; afterwards \<open>e\<close> is inactive, its list of dependency sets is empty, it is
  a member of no dependency set, and the trace has grown by the call of \<open>onStop\<close> (if
  there is one). A second \<open>stop\<close> returns and changes nothing. After any user code that
  runs from there, \<open>e\<close> is still stopped: inactive, subscribed nowhere, and neither its
  \<open>run\<close> nor its scheduler has been called by \<open>triggerEffects\<close>. A direct call of \<open>run\<close>
  is the call of the wrapped function and nothing else; when that function only reads
  and no effect is running, it returns the function's result and leaves the state as it
  is, up to the trace.
\<close>

lemma stop_when_not_running:
  assumes "bookkeeping s" and "e \<notin> set (effectStack s)" and "activeEffect s \<noteq> Some e"
    and "active (effectHeap s e)"
    and "case onStop (effectHeap s e) of None \<Rightarrow> True | Some g \<Rightarrow> reader g"
  shows "\<exists>s1. stop (call tn (Suc f)) e s = Some (Normal Undefined, s1) \<and>
           \<not> active (effectHeap s1 e) \<and> deps (effectHeap s1 e) = [] \<and>
           (\<forall>d. e \<notin> set (members (depHeap s1 d))) \<and>
           trace s1 = trace s @ (case onStop (effectHeap s e) of None \<Rightarrow> []
                                 | Some g \<Rightarrow> [OnStopCalled e]) \<and>
           (\<forall>c. stop c e s1 = Some (Normal Undefined, s1)) \<and>
           (\<forall>tn' f' cmds r s2. exec (call tn' f') tn' cmds s1 = Some (r, s2) \<longrightarrow>
              stopped e (length (trace s1)) s2 \<and>
              (\<forall>c. run c e s2 = c (fn (effectHeap s e)) (log_event (FnCalled e) s2)) \<and>
              (\<forall>body v. fn (effectHeap s e) = Fn body v \<and> list_all is_read body \<and>
                         activeEffect s2 = None \<longrightarrow>
                 run (call tn' (Suc f')) e s2 = Some (Normal v, log_event (FnCalled e) s2)))"
proof -
  from stop_settles[OF assms, of tn f] obtain s1 where
    st: "stop (call tn (Suc f)) e s = Some (Normal Undefined, s1)"
    and ia: "\<not> active (effectHeap s1 e)" and un: "unsubscribed e s1"
    and tr: "trace s1 = trace s @ (case onStop (effectHeap s e) of None \<Rightarrow> []
                                   | Some g \<Rightarrow> [OnStopCalled e])"
    and co: "code_of (effectHeap s1 e) = code_of (effectHeap s e)"
    by blast
  from ia un have sp: "stopped e (length (trace s1)) s1"
    by (simp add: stopped_def silent_def)
  from ia have again: "\<forall>c. stop c e s1 = Some (Normal Undefined, s1)"
    by (simp add: stop_def)
  have later: "stopped e (length (trace s1)) s2 \<and>
      (\<forall>c. run c e s2 = c (fn (effectHeap s e)) (log_event (FnCalled e) s2)) \<and>
      (\<forall>body v. fn (effectHeap s e) = Fn body v \<and> list_all is_read body \<and>
                 activeEffect s2 = None \<longrightarrow>
         run (call tn' (Suc f')) e s2 = Some (Normal v, log_event (FnCalled e) s2))"
    if ex: "exec (call tn' f') tn' cmds s1 = Some (r, s2)" for tn' f' cmds r s2
  proof -
    from stopped_forever[OF sp ex] have sp2: "stopped e (length (trace s1)) s2" .
    from exec_code_preserved[OF ex, of e] co have "fn (effectHeap s2 e) = fn (effectHeap s e)"
      by (simp add: code_of_def)
    with sp2 have rn: "run c e s2 = c (fn (effectHeap s e)) (log_event (FnCalled e) s2)" for c
      by (simp add: run_def stopped_def)
    have "run (call tn' (Suc f')) e s2 = Some (Normal v, log_event (FnCalled e) s2)"
      if "fn (effectHeap s e) = Fn body v" and "list_all is_read body" and "activeEffect s2 = None"
      for body v
      using that by (simp add: rn exec_reads do_reads_inert del: exec.simps)
    with sp2 rn show ?thesis by blast
  qed
  from un have "deps (effectHeap s1 e) = []" "\<forall>d. e \<notin> set (members (depHeap s1 d))"
    by (simp_all add: unsubscribed_def)
  with st ia tr again later show ?thesis by blast
qed

subsection \<open>The two regimes of trackEffects\<close>

lemma track_eq:
  assumes "activeEffect s = Some e" and "shouldTrack s"
  shows "track tg k s =
     (case map_of (case targetMap s tg of None \<Rightarrow> [] | Some m \<Rightarrow> m) k of
        Some d \<Rightarrow> trackEffects d e s
      | None \<Rightarrow> trackEffects (nextDep s) e (alloc_dep tg k s))"
  using assms by (simp add: track_def alloc_dep_def Let_def split: option.splits)

lemma alloc_dep_fields [simp]:
  "nextDep (alloc_dep tg k s) = Suc (nextDep s)"
  "effectHeap (alloc_dep tg k s) = effectHeap s"
  "effectTrackDepth (alloc_dep tg k s) = effectTrackDepth s"
  "trackOpBit (alloc_dep tg k s) = trackOpBit s"
  "activeEffect (alloc_dep tg k s) = activeEffect s"
  "shouldTrack (alloc_dep tg k s) = shouldTrack s"
  "depHeap (alloc_dep tg k s) = (depHeap s)(nextDep s := createDep [])"
  by (simp_all add: alloc_dep_def)

lemma alloc_dep_eq:
  "\<exists>m. (targetMap s tg = Some m \<or> targetMap s tg = None \<and> m = []) \<and>
       alloc_dep tg k s =
         s\<lparr>targetMap := (targetMap s)(tg \<mapsto> m @ [(k, nextDep s)]),
           depHeap := (depHeap s)(nextDep s := createDep []),
           nextDep := Suc (nextDep s)\<rparr>"
  by (cases "targetMap s tg") (simp_all add: alloc_dep_def)

lemma tracking_alloc_dep: "tracking e t \<Longrightarrow> tracking e (alloc_dep tg k t)"
  using alloc_dep_eq[of t tg k] tracking_alloc[of e t tg _ k] by auto

lemma bookkeeping_alloc_dep: "bookkeeping t \<Longrightarrow> bookkeeping (alloc_dep tg k t)"
  using alloc_dep_eq[of t tg k] bookkeeping_alloc[of t tg _ k] by auto

lemma fallback_alloc_dep: "fallback e u \<Longrightarrow> fallback e (alloc_dep tg k u)"
  by (simp add: fallback_def bookkeeping_alloc_dep)

lemma marked_alloc_dep:
  assumes "marked e t" and "bookkeeping t"
  shows "marked e (alloc_dep tg k t)"
proof -
  from assms(2) have "nextDep t \<notin> set (deps (effectHeap t e))"
    by (auto simp: bookkeeping_def allocated_def)
  with assms(1) show ?thesis
    by (auto simp: marked_def wasTracked_def newTracked_def)
qed

lemma match_alloc_dep:
  assumes "edges_match e t u"
  shows "edges_match e (alloc_dep tg k t) (alloc_dep tg k u)"
  using assms
  by (auto simp: edges_match_def alloc_dep_def createDep_def newTracked_def)

lemma depHeap_trackEffects_other:
  "d' \<noteq> d \<Longrightarrow> depHeap (trackEffects d a t) d' = depHeap t d'"
  by (simp add: trackEffects_def Let_def split: prod.splits)

lemma members_trackEffects_low:
  assumes "tracking e t"
  shows "set (members (depHeap (trackEffects d e t) d)) = insert e (set (members (depHeap t d)))"
proof -
  from assms have bit: "effectTrackDepth t \<le> maxMarkerBits"
    and w: "wasTracked t (depHeap t d) \<Longrightarrow> e \<in> set (members (depHeap t d))"
    and n: "newTracked t (depHeap t d) \<Longrightarrow> e \<in> set (members (depHeap t d))"
    by (auto simp: tracking_def bookkeeping_def symmetric_def)
  show ?thesis
  proof (cases "newTracked t (depHeap t d)")
    case True
    with bit n show ?thesis by (auto simp: trackEffects_def Let_def)
  next
    case False
    show ?thesis
    proof (cases "wasTracked t (depHeap t d)")
      case True
      with False bit w show ?thesis by (auto simp: trackEffects_def Let_def)
    next
      case nw: False
      with False bit show ?thesis by (simp add: trackEffects_def Let_def)
    qed
  qed
qed

lemma members_trackEffects_deep:
  assumes "maxMarkerBits < effectTrackDepth u"
  shows "set (members (depHeap (trackEffects d e u) d)) = insert e (set (members (depHeap u d)))"
  using assms by (auto simp: trackEffects_def Let_def)

lemma newTracked_trackEffects_iff:
  assumes "effectTrackDepth t \<le> maxMarkerBits" and "trackOpBit t \<noteq> 0"
  shows "newTracked (trackEffects d e t) (depHeap (trackEffects d e t) d')
           \<longleftrightarrow> d' = d \<or> newTracked t (depHeap t d')"
  using assms by (auto simp: trackEffects_def Let_def newTracked_def word_and_or_self)

lemma wasTracked_trackEffects:
  "wasTracked (trackEffects d e t) (depHeap (trackEffects d e t) d') = wasTracked t (depHeap t d')"
  by (auto simp: trackEffects_def Let_def wasTracked_def)

lemma deps_trackEffects:
  "d' \<in> set (deps (effectHeap (trackEffects d e t) e')) \<Longrightarrow>
     d' = d \<or> d' \<in> set (deps (effectHeap t e'))"
  by (auto simp: trackEffects_def Let_def split: if_splits)

lemma marked_trackEffects:
  assumes "marked e t" and "effectTrackDepth t \<le> maxMarkerBits" and "trackOpBit t \<noteq> 0"
  shows "marked e (trackEffects d e t)"
  unfolding marked_def
proof (intro allI impI)
  fix d'
  assume "d' \<in> set (deps (effectHeap (trackEffects d e t) e))"
  from deps_trackEffects[OF this] assms(1)
  have "d' = d \<or> wasTracked t (depHeap t d') \<or> newTracked t (depHeap t d')"
    by (auto simp: marked_def)
  then show "wasTracked (trackEffects d e t) (depHeap (trackEffects d e t) d') \<or>
             newTracked (trackEffects d e t) (depHeap (trackEffects d e t) d')"
    by (auto simp: wasTracked_trackEffects newTracked_trackEffects_iff[OF assms(2,3)])
qed

lemma fallback_trackEffects:
  "fallback e u \<Longrightarrow> d < nextDep u \<Longrightarrow> fallback e (trackEffects d e u)"
  by (simp add: fallback_def bookkeeping_trackEffects)

lemma match_trackEffects:
  assumes "tracking e t" and "maxMarkerBits < effectTrackDepth u" and "edges_match e t u"
  shows "edges_match e (trackEffects d e t) (trackEffects d e u)"
proof -
  from assms(1) have bit: "effectTrackDepth t \<le> maxMarkerBits" "trackOpBit t \<noteq> 0"
    by (simp_all add: tracking_def)
  have m: "set (members (depHeap (trackEffects d e u) d')) - {e} =
           set (members (depHeap (trackEffects d e t) d')) - {e}" for d'
  proof (cases "d' = d")
    case True
    with assms(3) members_trackEffects_low[OF assms(1), of d]
      members_trackEffects_deep[OF assms(2), of d e]
    show ?thesis by (auto simp: edges_match_def)
  next
    case False
    with assms(3) show ?thesis by (simp add: depHeap_trackEffects_other edges_match_def)
  qed
  have n: "e \<in> set (members (depHeap (trackEffects d e u) d')) \<longleftrightarrow>
           newTracked (trackEffects d e t) (depHeap (trackEffects d e t) d')" for d'
  proof (cases "d' = d")
    case True
    with members_trackEffects_deep[OF assms(2), of d e] show ?thesis
      by (simp add: newTracked_trackEffects_iff[OF bit])
  next
    case False
    with assms(3) newTracked_trackEffects_iff[OF bit, of d e d']
      depHeap_trackEffects_other[of d' d e u]
    show ?thesis by (simp add: edges_match_def)
  qed
  from assms(3) m n show ?thesis by (simp add: edges_match_def)
qed

lemma simulates_trackEffects:
  assumes "simulates e t u" and "d < nextDep t"
  shows "simulates e (trackEffects d e t) (trackEffects d e u)"
proof -
  from assms(1) have tr: "tracking e t" and mk: "marked e t" and fb: "fallback e u"
    and em: "edges_match e t u"
    by (simp_all add: simulates_def)
  from em assms(2) have lt: "d < nextDep u" by (simp add: edges_match_def)
  from tr have bit: "effectTrackDepth t \<le> maxMarkerBits" "trackOpBit t \<noteq> 0"
    by (simp_all add: tracking_def)
  from fb have deep: "maxMarkerBits < effectTrackDepth u" by (simp add: fallback_def)
  from tracking_trackEffects(1)[OF tr assms(2)] marked_trackEffects[OF mk bit]
    fallback_trackEffects[OF fb lt] match_trackEffects[OF tr deep em]
  show ?thesis by (simp add: simulates_def)
qed

lemma simulates_alloc_dep:
  assumes "simulates e t u"
  shows "simulates e (alloc_dep tg k t) (alloc_dep tg k u)"
proof -
  from assms have tr: "tracking e t" and mk: "marked e t" and fb: "fallback e u"
    and em: "edges_match e t u"
    by (simp_all add: simulates_def)
  from tr have "bookkeeping t" by (simp add: tracking_def)
  from tracking_alloc_dep[OF tr] marked_alloc_dep[OF mk this] fallback_alloc_dep[OF fb]
    match_alloc_dep[OF em]
  show ?thesis by (simp add: simulates_def)
qed

lemma simulates_track:
  assumes "simulates e t u"
  shows "simulates e (track tg k t) (track tg k u)"
proof -
  from assms have tr: "tracking e t" and fb: "fallback e u" and em: "edges_match e t u"
    by (simp_all add: simulates_def)
  from tr have at: "activeEffect t = Some e" "shouldTrack t" by (simp_all add: tracking_def)
  from fb have au: "activeEffect u = Some e" "shouldTrack u" by (simp_all add: fallback_def)
  from em have eq: "targetMap u = targetMap t" "nextDep u = nextDep t"
    by (simp_all add: edges_match_def)
  let ?m = "case targetMap t tg of None \<Rightarrow> [] | Some m \<Rightarrow> m"
  show ?thesis
  proof (cases "map_of ?m k")
    case None
    from simulates_alloc_dep[OF assms, of tg k]
    have "simulates e (trackEffects (nextDep t) e (alloc_dep tg k t))
            (trackEffects (nextDep t) e (alloc_dep tg k u))"
      by (rule simulates_trackEffects) simp
    with None eq show ?thesis by (simp add: track_eq[OF at] track_eq[OF au])
  next
    case (Some d)
    then obtain m where "targetMap t tg = Some m" "(k, d) \<in> set m"
      by (cases "targetMap t tg") (auto dest: map_of_SomeD)
    with tr have "d < nextDep t" by (auto simp: tracking_def bookkeeping_def allocated_def)
    from simulates_trackEffects[OF assms this] Some eq show ?thesis
      by (simp add: track_eq[OF at] track_eq[OF au])
  qed
qed

lemma simulates_do_reads:
  "simulates e t u \<Longrightarrow> simulates e (do_reads cs t) (do_reads cs u)"
proof (induction cs arbitrary: t u)
  case Nil
  then show ?case by simp
next
  case (Cons c cs)
  then show ?case by (cases c) (simp_all add: simulates_track)
qed

subsection \<open>A run within the maximum depth against a run beyond it\<close>

lemma depHeap_run_enter_deep:
  assumes "maxMarkerBits < effectTrackDepth s + 1"
  shows "depHeap (run_enter e s) d =
     (if d \<in> set (deps (effectHeap s e))
      then (depHeap s d)\<lparr>members := dep_delete e (members (depHeap s d))\<rparr>
      else depHeap s d)"
  using assms by (simp add: run_enter_def Let_def enableTracking_def depHeap_cleanupEffect)

lemma depHeap_run_enter_low:
  assumes "effectTrackDepth s + 1 \<le> maxMarkerBits"
  shows "depHeap (run_enter e s) d =
     (if d \<in> set (deps (effectHeap s e))
      then (depHeap s d)\<lparr>w_marks := w_marks (depHeap s d) OR shl1 (effectTrackDepth s + 1)\<rparr>
      else depHeap s d)"
  using assms by (simp add: run_enter_def Let_def enableTracking_def depHeap_initDepMarkers)

lemma effectHeap_run_enter_low:
  assumes "effectTrackDepth s + 1 \<le> maxMarkerBits"
  shows "effectHeap (run_enter e s) = effectHeap s"
  using assms by (simp add: run_enter_def Let_def enableTracking_def initDepMarkers_def)

lemma simulates_run_enter:
  assumes "bookkeeping s" and "distinct_members s" and "unmarked s"
    and "effectTrackDepth s + 1 \<le> maxMarkerBits" and "maxMarkerBits < D + 1"
  shows "simulates e (log_event ev (run_enter e s))
           (log_event ev (run_enter e (s\<lparr>effectTrackDepth := D, trackOpBit := b\<rparr>)))"
proof -
  let ?t = "log_event ev (run_enter e s)"
  let ?u = "log_event ev (run_enter e (s\<lparr>effectTrackDepth := D, trackOpBit := b\<rparr>))"
  from assms(1) have sym: "\<And>d. e \<in> set (members (depHeap s d)) \<longleftrightarrow> d \<in> set (deps (effectHeap s e))"
    by (simp add: bookkeeping_def symmetric_def)
  have tr: "tracking e ?t" by (rule tracking_run_enter[OF assms(1-4)])
  have mk: "marked e ?t"
    using shl1_nonzero[of "effectTrackDepth s + 1"]
    by (simp add: marked_def depHeap_run_enter_low[OF assms(4)]
        effectHeap_run_enter_low[OF assms(4)] wasTracked_def word_and_or_self)
  have fb: "fallback e ?u"
    using assms(1,5) by (simp add: fallback_def bookkeeping_ctx_update bookkeeping_run_enter)
  have dp: "maxMarkerBits < effectTrackDepth (s\<lparr>effectTrackDepth := D, trackOpBit := b\<rparr>) + 1"
    using assms(5) by simp
  have em: "edges_match e ?t ?u"
    unfolding edges_match_def
  proof (intro conjI allI)
    fix d
    show "set (members (depHeap ?u d)) - {e} = set (members (depHeap ?t d)) - {e}"
      by (auto simp: depHeap_run_enter_deep[OF dp] depHeap_run_enter_low[OF assms(4)])
    have "e \<notin> set (members (depHeap ?u d))"
      using sym[of d] by (auto simp: depHeap_run_enter_deep[OF dp])
    moreover have "\<not> newTracked ?t (depHeap ?t d)"
      using assms(3) by (simp add: depHeap_run_enter_low[OF assms(4)] newTracked_def unmarked_def)
    ultimately show "e \<in> set (members (depHeap ?u d)) \<longleftrightarrow> newTracked ?t (depHeap ?t d)"
      by simp
  qed simp_all
  from tr mk fb em show ?thesis by (simp add: simulates_def)
qed

lemma same_edges_run_exit:
  assumes "simulates e t u"
  shows "same_edges (run_exit e t) (run_exit e u)"
proof -
  from assms have tr: "tracking e t" and mk: "marked e t" and fb: "fallback e u"
    and em: "edges_match e t u"
    by (simp_all add: simulates_def)
  from tr have low: "effectTrackDepth t \<le> maxMarkerBits" and bt: "bookkeeping t"
    and nt: "\<And>d. newTracked t (depHeap t d) \<Longrightarrow>
               d \<in> set (deps (effectHeap t e)) \<and> e \<in> set (members (depHeap t d))"
    by (simp_all add: tracking_def)
  from bt have sym: "\<And>d. e \<in> set (members (depHeap t d)) \<longleftrightarrow> d \<in> set (deps (effectHeap t e))"
    by (simp add: bookkeeping_def symmetric_def)
  from fb have deep: "maxMarkerBits < effectTrackDepth u" and bu: "bookkeeping u"
    by (simp_all add: fallback_def)
  have du: "depHeap (run_exit e u) d = depHeap u d" for d
    using deep by (simp add: run_exit_def Let_def resetTracking_def split: list.splits)
  have dt: "set (members (depHeap (run_exit e t) d)) =
      (if d \<in> set (deps (effectHeap t e)) \<and> stale t (depHeap t d)
       then set (members (depHeap t d)) - {e} else set (members (depHeap t d)))" for d
    using low
    by (simp add: run_exit_def Let_def resetTracking_def depHeap_finalizeDepMarkers
        members_finalize_dep split: list.splits)
  have mem: "set (members (depHeap (run_exit e u) d)) = set (members (depHeap (run_exit e t) d))"
    for d
  proof (cases "newTracked t (depHeap t d)")
    case True
    with nt[OF True] em have "e \<in> set (members (depHeap u d))" "e \<in> set (members (depHeap t d))"
      "\<not> stale t (depHeap t d)"
      by (simp_all add: edges_match_def stale_def)
    moreover from em have "set (members (depHeap u d)) - {e} = set (members (depHeap t d)) - {e}"
      by (simp add: edges_match_def)
    ultimately show ?thesis by (auto simp: du dt)
  next
    case False
    with em have nu: "e \<notin> set (members (depHeap u d))" by (simp add: edges_match_def)
    from em have eq: "set (members (depHeap u d)) - {e} = set (members (depHeap t d)) - {e}"
      by (simp add: edges_match_def)
    show ?thesis
    proof (cases "e \<in> set (members (depHeap t d))")
      case True
      with sym have d: "d \<in> set (deps (effectHeap t e))" by simp
      with mk False have "stale t (depHeap t d)" by (auto simp: marked_def stale_def)
      with d nu eq show ?thesis by (auto simp: du dt)
    next
      case False
      with nu eq show ?thesis by (auto simp: du dt)
    qed
  qed
  from bookkeeping_run_exit[OF bt, of e] bookkeeping_run_exit[OF bu, of e]
  have "d \<in> set (deps (effectHeap (run_exit e u) e')) \<longleftrightarrow>
        d \<in> set (deps (effectHeap (run_exit e t) e'))" for d e'
    using mem[of d] by (simp add: bookkeeping_def symmetric_def) blast
  then have "set (deps (effectHeap (run_exit e u) e')) = set (deps (effectHeap (run_exit e t) e'))"
    for e'
    by blast
  with mem em show ?thesis by (simp add: same_edges_def edges_match_def)
qed

subsection \<open>The two regimes from a state without markers\<close>

text \<open>
  Let the bookkeeping be consistent and no set carry a marker of the next depth, and let
  the function of the active effect \<open>e\<close>, which is not running, only read. Then the run
  of \<open>e\<close> at a depth within the maximum and its run from the same state at a depth beyond
  the maximum both return the function's result, and they leave the same dependency
  edges: the same key tables, the same effects in every dependency set, the same sets in
  the list of every effect.
\<close>

lemma same_edges_without_markers:
  assumes "bookkeeping s" and "distinct_members s" and "unmarked s"
    and "effectTrackDepth s + 1 \<le> maxMarkerBits" and "maxMarkerBits < D + 1"
    and "active (effectHeap s e)" and "e \<notin> set (effectStack s)"
    and "fn (effectHeap s e) = Fn body v" and "list_all is_read body"
  shows "(\<exists>s1 u1. run (call tn (Suc f)) e s = Some (Normal v, s1) \<and>
            run (call tn (Suc f)) e (s\<lparr>effectTrackDepth := D, trackOpBit := shl1 D\<rparr>)
              = Some (Normal v, u1) \<and>
            same_edges s1 u1) \<and>
         (\<forall>d a u. maxMarkerBits < effectTrackDepth u \<longrightarrow>
            trackEffects d a u =
              (if a \<in> set (members (depHeap u d)) then u
               else map_effect a (\<lambda>x. x\<lparr>deps := deps x @ [d]\<rparr>)
                      (map_dep d (\<lambda>x. x\<lparr>members := dep_add a (members x)\<rparr>) u)))"
proof -
  let ?deep = "s\<lparr>effectTrackDepth := D, trackOpBit := shl1 D\<rparr>"
  let ?t0 = "log_event (FnCalled e) (run_enter e s)"
  let ?u0 = "log_event (FnCalled e) (run_enter e ?deep)"
  from assms(6-9) have r1: "run (call tn (Suc f)) e s = Some (Normal v, run_exit e (do_reads body ?t0))"
    by (simp add: run_def exec_reads)
  from assms(6-9) have r2:
    "run (call tn (Suc f)) e ?deep = Some (Normal v, run_exit e (do_reads body ?u0))"
    by (simp add: run_def exec_reads)
  from simulates_run_enter[OF assms(1-5)] have "simulates e ?t0 ?u0" .
  then have "simulates e (do_reads body ?t0) (do_reads body ?u0)" by (rule simulates_do_reads)
  then have "same_edges (run_exit e (do_reads body ?t0)) (run_exit e (do_reads body ?u0))"
    by (rule same_edges_run_exit)
  with r1 r2 have 1: "\<exists>s1 u1. run (call tn (Suc f)) e s = Some (Normal v, s1) \<and>
            run (call tn (Suc f)) e ?deep = Some (Normal v, u1) \<and> same_edges s1 u1"
    by blast
  have 2: "trackEffects d a u =
              (if a \<in> set (members (depHeap u d)) then u
               else map_effect a (\<lambda>x. x\<lparr>deps := deps x @ [d]\<rparr>)
                      (map_dep d (\<lambda>x. x\<lparr>members := dep_add a (members x)\<rparr>) u))"
    if "maxMarkerBits < effectTrackDepth u" for d a and u :: state
    using that by (simp add: trackEffects_def Let_def)
  from 1 2 show ?thesis by blast
qed

subsection \<open>C7: the effects that a write notifies\<close>

lemma trigger_deps_written_keys:
  assumes "ty \<noteq> CLEAR" and "\<not> (k = KString ''length'' \<and> isArray tg)"
  shows "trigger_deps tn depsMap tg ty k nv = Inr (map (map_of depsMap) (written_keys tg ty k))"
  using assms by (cases ty) (auto simp: trigger_deps_def written_keys_def)

text \<open>
  C7, amended: let the write be no \<open>CLEAR\<close> and not the write of \<open>length\<close> of an array.
  Then \<open>trigger\<close> is the call of \<open>triggerEffects\<close> on the effects subscribed to: the
  written key, unless that key is \<open>undefined\<close>; \<open>ITERATE_KEY\<close> and, on a keyed map,
  \<open>MAP_KEY_ITERATE_KEY\<close>, for an \<open>ADD\<close> or a \<open>DELETE\<close> on a target that is no array;
  \<open>length\<close> for an \<open>ADD\<close> at an integer key of an array; \<open>ITERATE_KEY\<close> for a \<open>SET\<close> on
  a keyed map; and no others. A write of the key \<open>undefined\<close> notifies the effects of
  the structural keys only.
\<close>

theorem structural_keys:
  assumes "ty \<noteq> CLEAR" and "\<not> (k = KString ''length'' \<and> isArray tg)"
  shows "\<exists>es. trigger c tn tg ty k nv s = triggerEffects c es s \<and>
           set es = subscribers s tg (written_keys tg ty k) \<and>
           written_keys tg ty k =
             (if k = KUndefined then [] else [k]) @
             (case ty of
                ADD \<Rightarrow> (if \<not> isArray tg
                         then ITERATE_KEY # (if isMap tg then [MAP_KEY_ITERATE_KEY] else [])
                         else if isIntegerKey k then [KString ''length''] else [])
              | DELETE \<Rightarrow> (if \<not> isArray tg
                            then ITERATE_KEY # (if isMap tg then [MAP_KEY_ITERATE_KEY] else [])
                            else [])
              | SET \<Rightarrow> (if isMap tg then [ITERATE_KEY] else [])
              | CLEAR \<Rightarrow> [])"
proof (cases "targetMap s tg")
  case None
  have "trigger c tn tg ty k nv s = triggerEffects c [] s"
    using None by (simp add: trigger_def trigger_snapshot_def)
  moreover have "set [] = subscribers s tg (written_keys tg ty k)"
    using None by (simp add: subscribers_def)
  moreover have "written_keys tg ty k =
             (if k = KUndefined then [] else [k]) @
             (case ty of
                ADD \<Rightarrow> (if \<not> isArray tg
                         then ITERATE_KEY # (if isMap tg then [MAP_KEY_ITERATE_KEY] else [])
                         else if isIntegerKey k then [KString ''length''] else [])
              | DELETE \<Rightarrow> (if \<not> isArray tg
                            then ITERATE_KEY # (if isMap tg then [MAP_KEY_ITERATE_KEY] else [])
                            else [])
              | SET \<Rightarrow> (if isMap tg then [ITERATE_KEY] else [])
              | CLEAR \<Rightarrow> [])"
    by (cases ty) (simp_all add: written_keys_def)
  ultimately show ?thesis by blast
next
  case (Some depsMap)
  let ?ds = "map (map_of depsMap) (written_keys tg ty k)"
  have "trigger c tn tg ty k nv s = triggerEffects c (trigger_effects s ?ds) s"
    using Some trigger_deps_written_keys[OF assms, of tn depsMap nv]
    by (simp add: trigger_def trigger_snapshot_def)
  moreover have "set (trigger_effects s ?ds) = subscribers s tg (written_keys tg ty k)"
    using Some by (simp add: set_trigger_effects subscribers_def notified_def)
  moreover have "written_keys tg ty k =
             (if k = KUndefined then [] else [k]) @
             (case ty of
                ADD \<Rightarrow> (if \<not> isArray tg
                         then ITERATE_KEY # (if isMap tg then [MAP_KEY_ITERATE_KEY] else [])
                         else if isIntegerKey k then [KString ''length''] else [])
              | DELETE \<Rightarrow> (if \<not> isArray tg
                            then ITERATE_KEY # (if isMap tg then [MAP_KEY_ITERATE_KEY] else [])
                            else [])
              | SET \<Rightarrow> (if isMap tg then [ITERATE_KEY] else [])
              | CLEAR \<Rightarrow> [])"
    by (cases ty) (simp_all add: written_keys_def)
  ultimately show ?thesis by blast
qed

theorem structural_keys_witness:
  "ADD \<noteq> CLEAR \<and> \<not> (KString ''a'' = KString ''length'' \<and> isArray (MapT 0)) \<and>
   \<not> (KUndefined = KString ''length'' \<and> isArray (MapT 0)) \<and>
   (\<exists>es. trigger (call (\<lambda>x. None) (Suc 0)) (\<lambda>x. None) (MapT 0) ADD (KString ''a'') None map_state
            = triggerEffects (call (\<lambda>x. None) (Suc 0)) es map_state \<and>
          set es = {0, 1}) \<and>
   (\<exists>es. trigger (call (\<lambda>x. None) (Suc 0)) (\<lambda>x. None) (MapT 0) ADD KUndefined None map_state
            = triggerEffects (call (\<lambda>x. None) (Suc 0)) es map_state \<and>
          set es = {1})"
proof -
  have a: "subscribers map_state (MapT 0) (written_keys (MapT 0) ADD (KString ''a'')) = {0, 1}"
    by (auto simp: subscribers_def written_keys_def notified_def map_state_def init_state_def
        dep_members_def createDep_def dep_add_def ITERATE_KEY_def MAP_KEY_ITERATE_KEY_def)
  have b: "subscribers map_state (MapT 0) (written_keys (MapT 0) ADD KUndefined) = {1}"
    by (auto simp: subscribers_def written_keys_def notified_def map_state_def init_state_def
        dep_members_def createDep_def dep_add_def ITERATE_KEY_def MAP_KEY_ITERATE_KEY_def)
  from structural_keys[of ADD "KString ''a''" "MapT 0" "call (\<lambda>x. None) (Suc 0)" "\<lambda>x. None" None map_state]
    structural_keys[of ADD KUndefined "MapT 0" "call (\<lambda>x. None) (Suc 0)" "\<lambda>x. None" None map_state]
    a b
  show ?thesis by (simp del: call.simps) blast
qed

subsection \<open>The effect stack and the depth are restored by every call\<close>

lemma frame_primitives [simp]:
  "frame (log_event ev s) = frame s"
  "frame (cleanupEffect e s) = frame s"
  "frame (set_inactive e s) = frame s"
  "frame (track tg k s) = frame s"
  "frame (pauseTracking s) = frame s"
  "frame (enableTracking s) = frame s"
  "frame (resetTracking s) = frame s"
  by (simp_all add: frame_def pauseTracking_def enableTracking_def resetTracking_def
      split: list.splits)

lemma frame_run_exit:
  "frame s1 = frame (run_enter e s) \<Longrightarrow> frame (run_exit e s1) = frame s"
  by (simp add: frame_def)

lemma keeps_frameD: "keeps_frame c \<Longrightarrow> c g s = Some (r, s') \<Longrightarrow> frame s' = frame s"
  unfolding keeps_frame_def by blast

lemma run_frame:
  assumes "keeps_frame c" and "run c e s = Some (r, s')"
  shows "frame s' = frame s"
proof (cases "active (effectHeap s e)")
  case False
  with assms(2) have "c (fn (effectHeap s e)) (log_event (FnCalled e) s) = Some (r, s')"
    by (simp add: run_def)
  from keeps_frameD[OF assms(1) this] show ?thesis by simp
next
  case True
  show ?thesis
  proof (cases "e \<in> set (effectStack s)")
    case True
    with \<open>active (effectHeap s e)\<close> assms(2) show ?thesis by (simp add: run_def)
  next
    case False
    with True assms(2) obtain s1 where
      c: "c (fn (effectHeap s e)) (log_event (FnCalled e) (run_enter e s)) = Some (r, s1)"
      and s': "s' = run_exit e s1"
      by (auto simp: run_def split: option.splits)
    from keeps_frameD[OF assms(1) c] have "frame s1 = frame (run_enter e s)" by simp
    with s' show ?thesis by (simp add: frame_run_exit)
  qed
qed

lemma stop_frame:
  assumes "keeps_frame c" and "stop c e s = Some (r, s')"
  shows "frame s' = frame s"
proof (cases "active (effectHeap s e)")
  case False
  with assms(2) show ?thesis by (simp add: stop_def)
next
  case True
  show ?thesis
  proof (cases "onStop (effectHeap s e)")
    case None
    with True assms(2) show ?thesis by (auto simp: stop_def)
  next
    case (Some g)
    with True assms(2) obtain r1 s1 where
      c: "c g (log_event (OnStopCalled e) (cleanupEffect e s)) = Some (r1, s1)"
      and s': "s' = set_inactive e s1 \<or> s' = s1"
      by (auto simp: stop_def split: option.splits completion.splits)
    from keeps_frameD[OF assms(1) c] s' show ?thesis by auto
  qed
qed

lemma triggerEffects_frame:
  assumes "keeps_frame c"
  shows "triggerEffects c es s = Some (r, s') \<Longrightarrow> frame s' = frame s"
proof (induction es arbitrary: s)
  case Nil
  then show ?case by simp
next
  case (Cons e es)
  show ?case
  proof (cases "activeEffect s \<noteq> Some e \<or> allowRecurse (effectHeap s e)")
    case False
    with Cons show ?thesis by simp
  next
    case True
    show ?thesis
    proof (cases "scheduler (effectHeap s e)")
      case None
      with True Cons.prems obtain r1 s1 where
        r: "run c e (log_event (RunCalled e) s) = Some (r1, s1)"
        and rest: "(\<exists>v. r1 = Normal v \<and> triggerEffects c es s1 = Some (r, s')) \<or> s' = s1"
        by (auto split: option.splits completion.splits)
      from run_frame[OF assms r] have "frame s1 = frame s" by simp
      with rest Cons.IH show ?thesis by auto
    next
      case (Some g)
      with True Cons.prems obtain r1 s1 where
        r: "c g (log_event (SchedulerCalled e) s) = Some (r1, s1)"
        and rest: "(\<exists>v. r1 = Normal v \<and> triggerEffects c es s1 = Some (r, s')) \<or> s' = s1"
        by (auto split: option.splits completion.splits)
      from keeps_frameD[OF assms r] have "frame s1 = frame s" by simp
      with rest Cons.IH show ?thesis by auto
    qed
  qed
qed

lemma trigger_frame:
  assumes "keeps_frame c" and "trigger c tn tg ty k nv s = Some (r, s')"
  shows "frame s' = frame s"
  using assms(2) triggerEffects_frame[OF assms(1)]
  by (auto simp: trigger_def split: sum.splits)

lemma exec_frame:
  assumes "keeps_frame c"
  shows "exec c tn cs s = Some (r, s') \<Longrightarrow> frame s' = frame s"
proof (induction cs arbitrary: s)
  case Nil
  then show ?case by simp
next
  case (Cons cmd cs)
  show ?case
  proof (cases cmd)
    case (Track tg k)
    with Cons.prems have "exec c tn cs (track tg k s) = Some (r, s')" by simp
    from Cons.IH[OF this] show ?thesis by simp
  next
    case (Trigger tg ty k nv)
    with Cons.prems obtain r1 s1 where
      t: "trigger c tn tg ty k nv s = Some (r1, s1)"
      and rest: "(\<exists>v. r1 = Normal v \<and> exec c tn cs s1 = Some (r, s')) \<or> s' = s1"
      by (auto split: option.splits completion.splits)
    from trigger_frame[OF assms t] have "frame s1 = frame s" .
    with rest Cons.IH show ?thesis by auto
  next
    case (CallRunner e)
    with Cons.prems obtain r1 s1 where
      t: "run c e s = Some (r1, s1)"
      and rest: "(\<exists>v. r1 = Normal v \<and> exec c tn cs s1 = Some (r, s')) \<or> s' = s1"
      by (auto split: option.splits completion.splits)
    from run_frame[OF assms t] have "frame s1 = frame s" .
    with rest Cons.IH show ?thesis by auto
  next
    case (CallStop e)
    with Cons.prems obtain r1 s1 where
      t: "stop c e s = Some (r1, s1)"
      and rest: "(\<exists>v. r1 = Normal v \<and> exec c tn cs s1 = Some (r, s')) \<or> s' = s1"
      by (auto split: option.splits completion.splits)
    from stop_frame[OF assms t] have "frame s1 = frame s" .
    with rest Cons.IH show ?thesis by auto
  next
    case PauseTracking
    with Cons.prems have "exec c tn cs (pauseTracking s) = Some (r, s')" by simp
    from Cons.IH[OF this] show ?thesis by simp
  next
    case EnableTracking
    with Cons.prems have "exec c tn cs (enableTracking s) = Some (r, s')" by simp
    from Cons.IH[OF this] show ?thesis by simp
  next
    case ResetTracking
    with Cons.prems have "exec c tn cs (resetTracking s) = Some (r, s')" by simp
    from Cons.IH[OF this] show ?thesis by simp
  next
    case (Throw x)
    with Cons.prems show ?thesis by simp
  qed
qed

lemma call_frame: "keeps_frame (call tn f)"
proof (induction f)
  case 0
  show ?case by (simp add: keeps_frame_def)
next
  case (Suc f)
  show ?case
    unfolding keeps_frame_def
  proof (intro allI impI)
    fix g s r s'
    assume c: "call tn (Suc f) g s = Some (r, s')"
    show "frame s' = frame s"
    proof (cases g)
      case (Fn body v)
      with c obtain r1 where "exec (call tn f) tn body s = Some (r1, s')"
        by (auto split: option.splits completion.splits)
      from exec_frame[OF Suc this] show ?thesis .
    next
      case (RunnerOf e)
      with c have "run (call tn f) e s = Some (r, s')" by simp
      from run_frame[OF Suc this] show ?thesis .
    qed
  qed
qed

subsection \<open>C3: what a failing run restores\<close>

text \<open>
  C3, as stated, fails on the code for the tracking-enabled state. \<open>run\<close> pushes one
  entry on the stack of that state (\<open>enableTracking\<close>) and pops one in its \<open>finally\<close>
  block (\<open>resetTracking\<close>); what the wrapped function has pushed itself and not popped
  before it throws stays. Below, tracking is paused from outside, and the function of
  effect 0 pauses tracking and throws: before the run tracking is disabled and the stack
  holds one entry, after it tracking is enabled and the stack holds two.
\<close>

theorem run_failure_unbalanced_pause_counterexample:
  "(shouldTrack (pauseTracking pausing_state), trackStack (pauseTracking pausing_state))
     = (False, [True]) \<and>
   map_option (\<lambda>r. (fst r, shouldTrack (snd r), trackStack (snd r)))
     (run (call (\<lambda>x. None) (Suc 0)) 0 (pauseTracking pausing_state))
     = Some (Abrupt (Thrown 7), True, [False, True])"
  by (simp add: pausing_state_def eval_defs)

text \<open>
  C3, amended: let the wrapped function of an effect throw \<open>x\<close> when \<open>run\<close> calls it,
  whatever user code it runs before. For an effect that is active (and not yet running),
  \<open>run\<close> completes with the same \<open>x\<close>, after its \<open>finally\<close> block (\<open>run_exit\<close>, with
  the reconciliation of the dependencies). After it the depth and the effect stack are
  those before the run, the marker is \<open>1 << depth\<close> and the active effect is the top of
  the stack or none; these are the marker and the active effect before the run whenever
  the context was well formed then. The tracking-enabled flag and its stack are those
  before the run if the wrapped function has left the stack as \<open>run\<close> handed it over.
  For a stopped effect \<open>run\<close> is the call of the function and nothing else: it completes
  with the same \<open>x\<close>, and the depth, the marker, the effect stack and the active effect
  are those before the run.
\<close>

theorem run_failure_restores_context:
  "(active (effectHeap s e) \<and> e \<notin> set (effectStack s) \<and>
    call tn f (fn (effectHeap s e)) (log_event (FnCalled e) (run_enter e s)) = Some (Abrupt x, s1)
    \<longrightarrow> run (call tn f) e s = Some (Abrupt x, run_exit e s1) \<and>
        effectTrackDepth (run_exit e s1) = effectTrackDepth s \<and>
        trackOpBit (run_exit e s1) = shl1 (effectTrackDepth s) \<and>
        effectStack (run_exit e s1) = effectStack s \<and>
        activeEffect (run_exit e s1) =
          (case effectStack s of [] \<Rightarrow> None | a # st \<Rightarrow> Some a) \<and>
        (wf_ctx s \<longrightarrow> trackOpBit (run_exit e s1) = trackOpBit s \<and>
                      activeEffect (run_exit e s1) = activeEffect s) \<and>
        (trackStack s1 = shouldTrack s # trackStack s \<longrightarrow>
           shouldTrack (run_exit e s1) = shouldTrack s \<and>
           trackStack (run_exit e s1) = trackStack s)) \<and>
   (\<not> active (effectHeap s e) \<and>
    call tn f (fn (effectHeap s e)) (log_event (FnCalled e) s) = Some (Abrupt x, s2)
    \<longrightarrow> run (call tn f) e s = Some (Abrupt x, s2) \<and>
        effectTrackDepth s2 = effectTrackDepth s \<and>
        effectStack s2 = effectStack s \<and>
        (wf_ctx s \<longrightarrow> trackOpBit s2 = trackOpBit s \<and> activeEffect s2 = activeEffect s))"
proof (intro conjI impI)
  assume a: "active (effectHeap s e) \<and> e \<notin> set (effectStack s) \<and>
    call tn f (fn (effectHeap s e)) (log_event (FnCalled e) (run_enter e s)) = Some (Abrupt x, s1)"
  then have c: "call tn f (fn (effectHeap s e)) (log_event (FnCalled e) (run_enter e s))
                  = Some (Abrupt x, s1)" by simp
  from a show r: "run (call tn f) e s = Some (Abrupt x, run_exit e s1)"
    by (simp add: run_def)
  from keeps_frameD[OF call_frame c] have "frame s1 = frame (run_enter e s)" by simp
  then have f: "effectStack s1 = e # effectStack s" "effectTrackDepth s1 = effectTrackDepth s + 1"
    by (simp_all add: frame_def)
  from f show "effectTrackDepth (run_exit e s1) = effectTrackDepth s"
    "trackOpBit (run_exit e s1) = shl1 (effectTrackDepth s)"
    "effectStack (run_exit e s1) = effectStack s"
    "activeEffect (run_exit e s1) = (case effectStack s of [] \<Rightarrow> None | a # st \<Rightarrow> Some a)"
    by simp_all
  {
    assume "wf_ctx s"
    with f show "trackOpBit (run_exit e s1) = trackOpBit s"
      "activeEffect (run_exit e s1) = activeEffect s"
      by (simp_all add: wf_ctx_def)
  }
  {
    assume "trackStack s1 = shouldTrack s # trackStack s"
    then show "shouldTrack (run_exit e s1) = shouldTrack s"
      "trackStack (run_exit e s1) = trackStack s"
      by simp_all
  }
next
  assume a: "\<not> active (effectHeap s e) \<and>
    call tn f (fn (effectHeap s e)) (log_event (FnCalled e) s) = Some (Abrupt x, s2)"
  then have c: "call tn f (fn (effectHeap s e)) (log_event (FnCalled e) s) = Some (Abrupt x, s2)"
    by simp
  from a show "run (call tn f) e s = Some (Abrupt x, s2)" by (simp add: run_def)
  from keeps_frameD[OF call_frame c] have f: "frame s2 = frame s" by simp
  then show "effectTrackDepth s2 = effectTrackDepth s" "effectStack s2 = effectStack s"
    by (simp_all add: frame_def)
  {
    assume w: "wf_ctx s"
    then have "wf_ctx (log_event (FnCalled e) s)" by (simp add: wf_ctx_def)
    from preservesD[OF call_preserves[OF stable_wf_ctx] this c] have "wf_ctx s2" .
    with w f show "trackOpBit s2 = trackOpBit s" "activeEffect s2 = activeEffect s"
      by (simp_all add: wf_ctx_def frame_def)
  }
qed

theorem run_failure_restores_context_witness:
  "active (effectHeap balanced_state 0) \<and> 0 \<notin> set (effectStack balanced_state) \<and>
   wf_ctx balanced_state \<and>
   (\<exists>s1 s'. call (\<lambda>x. None) (Suc 0) (fn (effectHeap balanced_state 0))
               (log_event (FnCalled 0) (run_enter 0 balanced_state)) = Some (Abrupt (Thrown 7), s1) \<and>
      trackStack s1 = shouldTrack balanced_state # trackStack balanced_state \<and>
      run (call (\<lambda>x. None) (Suc 0)) 0 balanced_state = Some (Abrupt (Thrown 7), s') \<and>
      effectTrackDepth s' = 0 \<and> trackOpBit s' = 1 \<and> shouldTrack s' \<and> trackStack s' = [] \<and>
      effectStack s' = [] \<and> activeEffect s' = None) \<and>
   \<not> active (effectHeap (set_inactive 0 balanced_state) 0) \<and>
   wf_ctx (set_inactive 0 balanced_state) \<and>
   (\<exists>s2. call (\<lambda>x. None) (Suc 0) (fn (effectHeap (set_inactive 0 balanced_state) 0))
            (log_event (FnCalled 0) (set_inactive 0 balanced_state)) = Some (Abrupt (Thrown 7), s2) \<and>
      run (call (\<lambda>x. None) (Suc 0)) 0 (set_inactive 0 balanced_state) = Some (Abrupt (Thrown 7), s2) \<and>
      effectTrackDepth s2 = 0 \<and> trackOpBit s2 = 1 \<and> effectStack s2 = [] \<and> activeEffect s2 = None)"
proof -
  have h: "active (effectHeap balanced_state 0)" "0 \<notin> set (effectStack balanced_state)"
    by (simp_all add: balanced_state_def init_state_def new_ReactiveEffect_def)
  have w: "wf_ctx balanced_state"
    by (simp add: balanced_state_def init_state_def wf_ctx_def shl1_def)
  have "\<exists>s1. call (\<lambda>x. None) (Suc 0) (fn (effectHeap balanced_state 0))
               (log_event (FnCalled 0) (run_enter 0 balanced_state)) = Some (Abrupt (Thrown 7), s1) \<and>
             trackStack s1 = shouldTrack balanced_state # trackStack balanced_state"
    by (simp add: balanced_state_def eval_defs)
  then obtain s1 where
    c: "call (\<lambda>x. None) (Suc 0) (fn (effectHeap balanced_state 0))
          (log_event (FnCalled 0) (run_enter 0 balanced_state)) = Some (Abrupt (Thrown 7), s1)"
    and b: "trackStack s1 = shouldTrack balanced_state # trackStack balanced_state"
    by blast
  have f: "effectTrackDepth balanced_state = 0" "trackOpBit balanced_state = 1"
    "shouldTrack balanced_state" "trackStack balanced_state = []"
    "effectStack balanced_state = []" "activeEffect balanced_state = None"
    by (simp_all add: balanced_state_def init_state_def)
  from run_failure_restores_context[of balanced_state 0 "\<lambda>x. None" "Suc 0" "Thrown 7" s1]
    h c w b have
    "run (call (\<lambda>x. None) (Suc 0)) 0 balanced_state = Some (Abrupt (Thrown 7), run_exit 0 s1)"
    "effectTrackDepth (run_exit 0 s1) = effectTrackDepth balanced_state"
    "trackOpBit (run_exit 0 s1) = trackOpBit balanced_state"
    "shouldTrack (run_exit 0 s1) = shouldTrack balanced_state"
    "trackStack (run_exit 0 s1) = trackStack balanced_state"
    "effectStack (run_exit 0 s1) = effectStack balanced_state"
    "activeEffect (run_exit 0 s1) = activeEffect balanced_state"
    by blast+
  with h w c b f have 1: "\<exists>s1 s'. call (\<lambda>x. None) (Suc 0) (fn (effectHeap balanced_state 0))
               (log_event (FnCalled 0) (run_enter 0 balanced_state)) = Some (Abrupt (Thrown 7), s1) \<and>
      trackStack s1 = shouldTrack balanced_state # trackStack balanced_state \<and>
      run (call (\<lambda>x. None) (Suc 0)) 0 balanced_state = Some (Abrupt (Thrown 7), s') \<and>
      effectTrackDepth s' = 0 \<and> trackOpBit s' = 1 \<and> shouldTrack s' \<and> trackStack s' = [] \<and>
      effectStack s' = [] \<and> activeEffect s' = None"
    by (auto simp del: call.simps)
  let ?st = "set_inactive 0 balanced_state"
  have h2: "\<not> active (effectHeap ?st 0)" by simp
  have w2: "wf_ctx ?st" using w by (simp add: wf_ctx_def)
  have "\<exists>s2. call (\<lambda>x. None) (Suc 0) (fn (effectHeap ?st 0)) (log_event (FnCalled 0) ?st)
               = Some (Abrupt (Thrown 7), s2)"
    by (simp add: balanced_state_def eval_defs)
  then obtain s2 where
    c2: "call (\<lambda>x. None) (Suc 0) (fn (effectHeap ?st 0)) (log_event (FnCalled 0) ?st)
           = Some (Abrupt (Thrown 7), s2)"
    by blast
  from run_failure_restores_context[of ?st 0 "\<lambda>x. None" "Suc 0" "Thrown 7" _ s2] h2 c2 w2 have
    "run (call (\<lambda>x. None) (Suc 0)) 0 ?st = Some (Abrupt (Thrown 7), s2)"
    "effectTrackDepth s2 = effectTrackDepth ?st" "effectStack s2 = effectStack ?st"
    "trackOpBit s2 = trackOpBit ?st" "activeEffect s2 = activeEffect ?st"
    by blast+
  with c2 f have 2: "\<exists>s2. call (\<lambda>x. None) (Suc 0) (fn (effectHeap ?st 0))
            (log_event (FnCalled 0) ?st) = Some (Abrupt (Thrown 7), s2) \<and>
      run (call (\<lambda>x. None) (Suc 0)) 0 ?st = Some (Abrupt (Thrown 7), s2) \<and>
      effectTrackDepth s2 = 0 \<and> trackOpBit s2 = 1 \<and> effectStack s2 = [] \<and> activeEffect s2 = None"
    by (auto simp del: call.simps)
  from h w 1 h2 w2 2 show ?thesis by blast
qed

subsection \<open>The loop of triggerEffects, effect by effect\<close>

lemma triggerEffects_append:
  "triggerEffects c (xs @ ys) s =
     (case triggerEffects c xs s of
        None \<Rightarrow> None
      | Some (Normal v, s1) \<Rightarrow> triggerEffects c ys s1
      | Some (Abrupt x, s1) \<Rightarrow> Some (Abrupt x, s1))"
proof (induction xs arbitrary: s)
  case Nil
  show ?case by simp
next
  case (Cons e xs)
  show ?case
    by (simp add: Cons.IH split: option.splits prod.splits completion.splits)
qed

subsection \<open>C5: what triggerEffects does with each effect\<close>

text \<open>
  C5, as stated, fails on the code for the effects behind one that throws: the loop of
  \<open>triggerEffects\<close> has no \<open>try\<close>, so a throw of a scheduler or of \<open>run\<close> ends it, and
  the effects that follow in the array are neither skipped nor called. Below, effect 0
  reads the key \<open>a\<close> and throws, and effect 1 reads \<open>a\<close>; both are run once (the throw of
  the first run is caught outside). The write of \<open>a\<close> notifies the set \<open>[0, 1]\<close>: it
  calls \<open>run\<close> of effect 0, completes with its throw, and neither the scheduler nor
  \<open>run\<close> of effect 1 is called.
\<close>

theorem triggerEffects_throw_counterexample:
  "map_option (\<lambda>r. (fst r, trace (snd r), members (depHeap (snd r) 0)))
     (case exec (call (\<lambda>x. None) (Suc 0)) (\<lambda>x. None) [CallRunner 0] thrower_state of
        None \<Rightarrow> None
      | Some (r0, s0) \<Rightarrow>
          exec (call (\<lambda>x. None) (Suc 0)) (\<lambda>x. None)
            [CallRunner 1, Trigger (OtherT 0) SET (KString ''a'') None] s0)
   = Some (Abrupt (Thrown 3), [FnCalled 0, FnCalled 1, RunCalled 0, FnCalled 0], [0, 1])"
  by (simp add: thrower_state_def eval_defs)

text \<open>
  C5, amended: \<open>triggerEffects\<close> goes through the array in order, and it reaches an
  effect if and only if every call it has made for the effects before has returned; a
  call that throws or does not return ends the loop with that outcome. An effect that
  the loop reaches, in the state \<open>s1\<close> in which it reaches it, is skipped exactly when
  it is the active effect and has no \<open>allowRecurse\<close>: then nothing is called and the
  loop goes on. Otherwise, if it has a scheduler, the scheduler is called and \<open>run\<close> is
  not; if it has none, \<open>run\<close> is called, there and then. This holds for every caller
  \<open>c\<close>, that is whatever the user code does.
\<close>

theorem triggerEffects_per_effect:
  "triggerEffects c (xs @ e # ys) s =
     (case triggerEffects c xs s of
        None \<Rightarrow> None
      | Some (Abrupt x, s1) \<Rightarrow> Some (Abrupt x, s1)
      | Some (Normal v, s1) \<Rightarrow>
          (if activeEffect s1 = Some e \<and> \<not> allowRecurse (effectHeap s1 e)
           then triggerEffects c ys s1
           else (case scheduler (effectHeap s1 e) of
                   Some g \<Rightarrow>
                     (case c g (log_event (SchedulerCalled e) s1) of
                        None \<Rightarrow> None
                      | Some (Normal r, s2) \<Rightarrow> triggerEffects c ys s2
                      | Some (Abrupt x, s2) \<Rightarrow> Some (Abrupt x, s2))
                 | None \<Rightarrow>
                     (case run c e (log_event (RunCalled e) s1) of
                        None \<Rightarrow> None
                      | Some (Normal r, s2) \<Rightarrow> triggerEffects c ys s2
                      | Some (Abrupt x, s2) \<Rightarrow> Some (Abrupt x, s2)))))"
  by (simp add: triggerEffects_append split: option.splits prod.splits completion.splits)

theorem triggerEffects_per_effect_witness:
  "map_option (\<lambda>r. (fst r, trace (snd r)))
     (triggerEffects (call (\<lambda>x. None) (Suc 0)) ([0] @ 1 # [2]) notify_state)
   = Some (Normal Undefined, [SchedulerCalled 1, RunCalled 2, FnCalled 2]) \<and>
   activeEffect notify_state = Some 0 \<and> \<not> allowRecurse (effectHeap notify_state 0) \<and>
   scheduler (effectHeap notify_state 1) = Some (Fn [] Undefined) \<and>
   scheduler (effectHeap notify_state 2) = None"
  using triggerEffects_per_effect[of "call (\<lambda>x. None) (Suc 0)" "[0]" 1 "[2]" notify_state]
  by (simp add: notify_state_def eval_defs)

subsection \<open>C6: one position for an effect in several sets\<close>




subsection \<open>Between two calls from outside the state is settled\<close>




lemma settled_log [simp]: "settled (log_event ev s) = settled s"
  by (simp add: settled_def wf_ctx_def bookkeeping_ctx_update distinct_members_def unmarked_def)

lemma settled_switch [simp]:
  "settled (pauseTracking s) = settled s"
  "settled (enableTracking s) = settled s"
  "settled (resetTracking s) = settled s"
  by (auto simp: settled_def wf_ctx_def bookkeeping_def symmetric_def allocated_def
      distinct_members_def unmarked_def pauseTracking_def enableTracking_def resetTracking_def
      split: list.splits)











subsection \<open>C1: the round trip of a read and a write\<close>




subsection \<open>A reader at the end of a chain of nested runs\<close>

lemma run_enter_no_deps:
  assumes "deps (effectHeap s e) = []"
  shows "depHeap (run_enter e s) = depHeap s"
    and "targetMap (run_enter e s) = targetMap s"
    and "deps (effectHeap (run_enter e s) x) = deps (effectHeap s x)"
    and "fn (effectHeap (run_enter e s) x) = fn (effectHeap s x)"
    and "active (effectHeap (run_enter e s) x) = active (effectHeap s x)"
    and "effectTrackDepth (run_enter e s) = effectTrackDepth s + 1"
    and "effectStack (run_enter e s) = e # effectStack s"
    and "activeEffect (run_enter e s) = Some e"
    and "shouldTrack (run_enter e s)"
  using assms
  by (simp_all add: run_enter_def Let_def enableTracking_def initDepMarkers_def
      cleanupEffect_def map_deps_def map_effect_def)

lemma run_exit_no_deps:
  assumes "deps (effectHeap s e) = []"
  shows "depHeap (run_exit e s) = depHeap s"
    and "deps (effectHeap (run_exit e s) x) = deps (effectHeap s x)"
  using assms
  by (simp_all add: run_exit_def Let_def resetTracking_def finalizeDepMarkers_def
      map_deps_def map_effect_def split: list.splits)

lemma nested_reader_subscribes:
  assumes "1 \<le> k"
    and "fn (effectHeap s 1) = Fn [Track (OtherT 0) (KString ''a'')] Undefined"
    and "\<forall>e\<ge>2. fn (effectHeap s e) = Fn [CallRunner (e - 1)] Undefined"
    and "\<forall>e\<ge>1. active (effectHeap s e) \<and> deps (effectHeap s e) = []"
    and "\<forall>e\<in>set (effectStack s). k < e"
    and "effectTrackDepth s = 31 - int k"
    and "targetMap s (OtherT 0) = Some [(KString ''a'', 0)]"
    and "members (depHeap s 0) = []"
  shows "\<exists>s'. run (call tn (k + f)) k s = Some (Normal Undefined, s') \<and>
           members (depHeap s' 0) = [1] \<and> deps (effectHeap s' 1) = [0] \<and>
           (\<forall>e\<ge>2. deps (effectHeap s' e) = [])"
  using assms
proof (induction k arbitrary: s rule: nat_induct_at_least)
  case base
  let ?s1 = "log_event (FnCalled 1) (run_enter 1 s)"
  from base have d: "deps (effectHeap s 1) = []" "active (effectHeap s 1)"
    "1 \<notin> set (effectStack s)"
    by auto
  have s1: "activeEffect ?s1 = Some 1" "shouldTrack ?s1" "effectTrackDepth ?s1 = 31"
    "targetMap ?s1 (OtherT 0) = Some [(KString ''a'', 0)]" "members (depHeap ?s1 0) = []"
    "\<And>x. deps (effectHeap ?s1 x) = deps (effectHeap s x)"
    using base.prems(5,6,7) run_enter_no_deps[OF d(1)] by simp_all
  let ?s2 = "track (OtherT 0) (KString ''a'') ?s1"
  have s2: "members (depHeap ?s2 0) = [1]" "deps (effectHeap ?s2 1) = [0]"
    "\<And>x. x \<noteq> 1 \<Longrightarrow> deps (effectHeap ?s2 x) = deps (effectHeap s x)"
    "effectTrackDepth ?s2 = 31"
    using s1 d(1) by (simp_all add: track_def trackEffects_def maxMarkerBits_def Let_def
        map_effect_def map_dep_def dep_add_def)
  have "run (call tn (1 + f)) 1 s = Some (Normal Undefined, run_exit 1 ?s2)"
    using d base.prems(1) by (simp add: run_def)
  moreover have "members (depHeap (run_exit 1 ?s2) 0) = [1]"
    "\<And>x. deps (effectHeap (run_exit 1 ?s2) x) = deps (effectHeap ?s2 x)"
    using s2 by (simp_all add: run_exit_def Let_def maxMarkerBits_def resetTracking_def
        split: list.splits)
  ultimately show ?case using s2 base.prems(3) by auto
next
  case (Suc k)
  let ?e = "Suc k"
  let ?s1 = "log_event (FnCalled ?e) (run_enter ?e s)"
  from Suc.hyps Suc.prems have d: "deps (effectHeap s ?e) = []" "active (effectHeap s ?e)"
    "?e \<notin> set (effectStack s)" "fn (effectHeap s ?e) = Fn [CallRunner k] Undefined"
    by auto
  have "\<exists>s'. run (call tn (k + f)) k ?s1 = Some (Normal Undefined, s') \<and>
           members (depHeap s' 0) = [1] \<and> deps (effectHeap s' 1) = [0] \<and>
           (\<forall>e\<ge>2. deps (effectHeap s' e) = [])"
  proof (rule Suc.IH)
    show "fn (effectHeap ?s1 1) = Fn [Track (OtherT 0) (KString ''a'')] Undefined"
      using Suc.prems(1) by (simp add: run_enter_no_deps[OF d(1)])
    show "\<forall>e\<ge>2. fn (effectHeap ?s1 e) = Fn [CallRunner (e - 1)] Undefined"
      using Suc.prems(2) by (simp add: run_enter_no_deps[OF d(1)])
    show "\<forall>e\<ge>1. active (effectHeap ?s1 e) \<and> deps (effectHeap ?s1 e) = []"
      using Suc.prems(3) by (simp add: run_enter_no_deps[OF d(1)])
    show "\<forall>e\<in>set (effectStack ?s1). k < e"
      using Suc.prems(4) by (auto simp: run_enter_no_deps[OF d(1)])
    show "effectTrackDepth ?s1 = 31 - int k"
      using Suc.prems(5) by (simp add: run_enter_no_deps[OF d(1)])
    show "targetMap ?s1 (OtherT 0) = Some [(KString ''a'', 0)]"
      using Suc.prems(6) by (simp add: run_enter_no_deps[OF d(1)])
    show "members (depHeap ?s1 0) = []"
      using Suc.prems(7) by (simp add: run_enter_no_deps[OF d(1)])
  qed
  then obtain s' where
    r: "run (call tn (k + f)) k ?s1 = Some (Normal Undefined, s')"
    and p: "members (depHeap s' 0) = [1]" "deps (effectHeap s' 1) = [0]"
      "\<forall>e\<ge>2. deps (effectHeap s' e) = []"
    by blast
  from p(3) Suc.hyps have e: "deps (effectHeap s' ?e) = []" by simp
  have "run (call tn (Suc k + f)) ?e s = Some (Normal Undefined, run_exit ?e s')"
    using d r by (simp add: run_def)
  with p show ?case by (simp add: run_exit_no_deps[OF e])
qed

lemma self_stop_first:
  "\<exists>s. exec (call (\<lambda>x. None) (Suc f)) (\<lambda>x. None) [CallRunner 0] self_stop_state
         = Some (Normal Undefined, s) \<and>
       fn (effectHeap s 1) = Fn [Track (OtherT 0) (KString ''a'')] Undefined \<and>
       (\<forall>e\<ge>2. fn (effectHeap s e) = Fn [CallRunner (e - 1)] Undefined) \<and>
       (\<forall>e\<ge>1. active (effectHeap s e) \<and> deps (effectHeap s e) = []) \<and>
       effectStack s = [] \<and> effectTrackDepth s = 0 \<and>
       targetMap s (OtherT 0) = Some [(KString ''a'', 0)] \<and>
       members (depHeap s 0) = []"
  by (simp add: self_stop_state_def eval_defs)

lemma self_stop_then_reader:
  "map_option (\<lambda>r. (fst r, members (depHeap (snd r) 0), deps (effectHeap (snd r) 1)))
     (exec (call (\<lambda>x. None) (Suc f)) (\<lambda>x. None) [CallRunner 0, CallRunner 1] self_stop_state)
   = Some (Normal Undefined, [], [])"
  by (simp add: self_stop_state_def eval_defs)

lemma fuel_31: "call tn 31 = call tn (Suc 30)"
  using arg_cong[of "31::nat" "Suc 30" "call tn"] by (simp del: call.simps)

subsection \<open>C4: stop is terminal\<close>

text \<open>
  C4 at an effect that is stopped while it is running. The function of effect 0 calls
  \<open>stop\<close> on its own effect and then reads the key \<open>a\<close> of an object. The program runs
  effect 0 and then writes \<open>a\<close>. \<open>stop\<close> empties the list \<open>deps\<close> and sets \<open>active\<close> to
  false, but the run goes on with effect 0 as the active effect, so the read that
  follows subscribes it again: at the end the effect is inactive, and it is in the set of
  the key \<open>a\<close> (set 0), which is in its list \<open>deps\<close>. The \<open>SET\<close> of \<open>a\<close> therefore calls
  \<open>run\<close> of the stopped effect (\<open>RunCalled 0\<close>), which executes its function again.
\<close>

theorem stop_while_running_runs_again:
  "map_option (\<lambda>r. (fst r, active (effectHeap (snd r) 0), deps (effectHeap (snd r) 0),
                    members (depHeap (snd r) 0), trace (snd r)))
     (exec (call (\<lambda>x. None) (Suc (Suc 0))) (\<lambda>x. None)
        [CallRunner 0, Trigger (OtherT 0) SET (KString ''a'') (Some 1)]
        (effect_create (Fn [CallStop 0, Track (OtherT 0) (KString ''a'')] Undefined) None init_state))
   = Some (Normal Undefined, False, [0], [0], [FnCalled 0, RunCalled 0, FnCalled 0])"
  by (simp add: eval_defs)

subsection \<open>C9: the fallback beyond the maximum depth\<close>

text \<open>
  C9 after an effect has stopped itself. Effect 0 reads the key \<open>a\<close> of an object and
  then calls \<open>stop\<close> on its own effect; effect 1 reads \<open>a\<close>; effect \<open>e\<close>, for \<open>e\<close> from 2,
  calls the runner of effect \<open>e - 1\<close>. Both programs run effect 0 first: its read sets
  the "newly tracked" marker of depth 1 on the set of \<open>a\<close> (set 0), \<open>stop\<close> empties the
  list \<open>deps\<close>, and \<open>finalizeDepMarkers\<close> goes through the emptied list, so the marker
  stays. The first program then runs effect 1 at depth 1, in the regime of the markers:
  \<open>trackEffects\<close> finds the set marked and does not add the effect, so the run leaves no
  dependency edge. The second program runs effect 31, which through the effects 30 to 2
  runs effect 1 at depth 31, beyond the maximum depth: \<open>trackEffects\<close> finds effect 1
  not in the set and adds it. The same reads from the same state give different edges
  in the two regimes.
\<close>

theorem depth_fallback_differs_after_self_stop:
  "map_option (\<lambda>r. (fst r, members (depHeap (snd r) 0), deps (effectHeap (snd r) 1)))
     (exec (call (\<lambda>x. None) 31) (\<lambda>x. None) [CallRunner 0, CallRunner 1] self_stop_state)
   = Some (Normal Undefined, [], []) \<and>
   map_option (\<lambda>r. (fst r, members (depHeap (snd r) 0), deps (effectHeap (snd r) 1)))
     (exec (call (\<lambda>x. None) 31) (\<lambda>x. None) [CallRunner 0, CallRunner 31] self_stop_state)
   = Some (Normal Undefined, [1], [0])"
proof (intro conjI)
  show "map_option (\<lambda>r. (fst r, members (depHeap (snd r) 0), deps (effectHeap (snd r) 1)))
     (exec (call (\<lambda>x. None) 31) (\<lambda>x. None) [CallRunner 0, CallRunner 1] self_stop_state)
   = Some (Normal Undefined, [], [])"
    unfolding fuel_31 by (rule self_stop_then_reader)
next
  let ?c = "call (\<lambda>x. None) 31"
  from self_stop_first[of 30] obtain s where
    first: "exec ?c (\<lambda>x. None) [CallRunner 0] self_stop_state = Some (Normal Undefined, s)"
    and s: "fn (effectHeap s 1) = Fn [Track (OtherT 0) (KString ''a'')] Undefined"
      "\<forall>e\<ge>2. fn (effectHeap s e) = Fn [CallRunner (e - 1)] Undefined"
      "\<forall>e\<ge>1. active (effectHeap s e) \<and> deps (effectHeap s e) = []"
      "effectStack s = []" "effectTrackDepth s = 0"
      "targetMap s (OtherT 0) = Some [(KString ''a'', 0)]"
      "members (depHeap s 0) = []"
    unfolding fuel_31 by blast
  have "exec ?c (\<lambda>x. None) [CallRunner 0] self_stop_state =
          (case run ?c 0 self_stop_state of None \<Rightarrow> None
           | Some (Normal r, s') \<Rightarrow> Some (Normal Undefined, s')
           | Some (Abrupt x, s') \<Rightarrow> Some (Abrupt x, s'))"
    by (simp only: exec.simps)
  with first obtain r0 where r0: "run ?c 0 self_stop_state = Some (Normal r0, s)"
    by (auto split: option.splits completion.splits)
  have "\<exists>s'. run (call (\<lambda>x. None) (31 + 0)) 31 s = Some (Normal Undefined, s') \<and>
           members (depHeap s' 0) = [1] \<and> deps (effectHeap s' 1) = [0] \<and>
           (\<forall>e\<ge>2. deps (effectHeap s' e) = [])"
    using s by (intro nested_reader_subscribes) simp_all
  then obtain s' where s':
    "run ?c 31 s = Some (Normal Undefined, s')"
    "members (depHeap s' 0) = [1]" "deps (effectHeap s' 1) = [0]"
    by (auto simp del: call.simps)
  have "exec ?c (\<lambda>x. None) [CallRunner 0, CallRunner 31] self_stop_state = Some (Normal Undefined, s')"
    by (simp only: exec.simps r0 s'(1) option.case completion.case prod.case)
  with s'(2,3) show "map_option (\<lambda>r. (fst r, members (depHeap (snd r) 0), deps (effectHeap (snd r) 1)))
     (exec ?c (\<lambda>x. None) [CallRunner 0, CallRunner 31] self_stop_state)
   = Some (Normal Undefined, [1], [0])"
    by (simp del: call.simps exec.simps)
qed

end
